theory Spec2Isabelle
  imports Main "HOL-Library.Word" "HOL-Library.Product_Lexorder" "HOL-Library.Sublist"
begin

unbundle bit_operations_syntax

section \<open>Bit states and term records (enums/logic-state.enum.ts, data/table1/record.ts)\<close>

text \<open>
  \<^verbatim>\<open>ELogicState\<close> is the enum \<^verbatim>\<open>False = 0, True = 1, DontCare = 2\<close>. The two Boolean
  members are written \<open>LFalse\<close> and \<open>LTrue\<close>, since \<open>False\<close> and \<open>True\<close> are taken.
\<close>

datatype ELogicState = LFalse | LTrue | DontCare

text \<open>
  A \<^verbatim>\<open>Table1Record\<close> holds the minterms it covers, its bit pattern (index 0 is the most
  significant variable) and the flag \<^verbatim>\<open>isUsed\<close>. TypeScript numbers that hold term indices
  are modelled as \<open>int\<close>, counts and array positions as \<open>nat\<close>.
\<close>

record Table1Record =
  minterms :: "int list"
  bits :: "ELogicState list"
  isUsed :: bool

text \<open>The constructor copies both arrays and clears the flag.\<close>

definition Table1Record_new :: "int list \<Rightarrow> ELogicState list \<Rightarrow> Table1Record" where
  "Table1Record_new ms bs = \<lparr>minterms = ms, bits = bs, isUsed = False\<rparr>"

text \<open>
  \<^verbatim>\<open>(minterm >> i) & 1\<close>: JavaScript converts \<^verbatim>\<open>minterm\<close> to a signed 32-bit integer,
  shifts it right (sign-propagating) by \<^verbatim>\<open>i\<close> taken modulo 32, and masks the lowest bit.
\<close>

definition toInt32 :: "int \<Rightarrow> 32 word" where
  "toInt32 n = word_of_int n"

definition jsBit :: "int \<Rightarrow> nat \<Rightarrow> bool" where
  "jsBit minterm i = (signed_drop_bit (i mod 32) (toInt32 minterm) AND 1 \<noteq> 0)"

text \<open>
  \<^verbatim>\<open>fromMinterm\<close>: the loop runs \<^verbatim>\<open>i\<close> from \<^verbatim>\<open>numVariables - 1\<close> down to 0 and pushes one
  state per step.
\<close>

definition fromMinterm :: "int \<Rightarrow> nat \<Rightarrow> Table1Record" where
  "fromMinterm minterm numVariables =
     Table1Record_new [minterm]
       (map (\<lambda>i. if jsBit minterm i then LTrue else LFalse) (rev [0..<numVariables]))"

definition countOnes :: "Table1Record \<Rightarrow> nat" where
  "countOnes r = length (filter (\<lambda>b. b = LTrue) (bits r))"

text \<open>
  \<^verbatim>\<open>canCombineWith\<close>. The loop over the positions keeps \<^verbatim>\<open>differingPosition\<close> and
  \<^verbatim>\<open>differCount\<close>; the two patterns have equal length when it runs, so it walks both
  lists together with the index \<open>i\<close>. The result is a position, or \<open>-1\<close>.
\<close>

fun scanBits :: "ELogicState list \<Rightarrow> ELogicState list \<Rightarrow> nat \<Rightarrow> int \<Rightarrow> nat \<Rightarrow> int" where
  "scanBits (a # as) (b # bs) i differingPosition differCount =
     (if a \<noteq> b then
        (if a = DontCare \<or> b = DontCare then - 1
         else if differCount + 1 > 1 then - 1
         else scanBits as bs (i + 1) (int i) (differCount + 1))
      else scanBits as bs (i + 1) differingPosition differCount)"
| "scanBits _ _ i differingPosition differCount = differingPosition"

definition canCombineWith :: "Table1Record \<Rightarrow> Table1Record \<Rightarrow> int" where
  "canCombineWith this other =
     (if length (bits this) \<noteq> length (bits other) then - 1
      else scanBits (bits this) (bits other) 0 (- 1) 0)"

text \<open>
  \<^verbatim>\<open>[...new Set(xs)]\<close> keeps the first occurrence of every element, in order.
\<close>

fun uniq :: "'a list \<Rightarrow> 'a list" where
  "uniq [] = []"
| "uniq (x # xs) = x # uniq (filter (\<lambda>y. y \<noteq> x) xs)"

text \<open>
  \<^verbatim>\<open>newBits[position] = DontCare\<close> on a copy of the pattern. A negative position leaves
  every element as it is (JavaScript stores a property that the constructor's copy drops).
  A position beyond the end would grow the JavaScript array with holes, which are not
  logic states; the solver passes only positions returned by \<^verbatim>\<open>canCombineWith\<close>, which
  lie inside the pattern (lemma \<open>canCombineWith_range\<close>), and the model leaves the pattern
  unchanged there.
\<close>

definition assignIndex :: "'a list \<Rightarrow> int \<Rightarrow> 'a \<Rightarrow> 'a list" where
  "assignIndex xs position v =
     (if 0 \<le> position \<and> nat position < length xs then xs[nat position := v] else xs)"

definition combineWith :: "Table1Record \<Rightarrow> Table1Record \<Rightarrow> int \<Rightarrow> Table1Record" where
  "combineWith this other position =
     (let newBits = assignIndex (bits this) position DontCare;
          newMinterms = sort (uniq (minterms this @ minterms other))
      in Table1Record_new newMinterms newBits)"

text \<open>
  \<^verbatim>\<open>getKey\<close> joins the minterms with commas. Two integer arrays have the same joined
  string exactly when they are equal, so the key is modelled as the list itself.
\<close>

definition getKey :: "Table1Record \<Rightarrow> int list" where
  "getKey r = minterms r"

section \<open>Loops and their rendering (required-loop.ts)\<close>

record RequiredLoop =
  loop_minterms :: "int list"
  loop_bits :: "ELogicState list"

definition RequiredLoop_new :: "int list \<Rightarrow> ELogicState list \<Rightarrow> RequiredLoop" where
  "RequiredLoop_new ms bs = \<lparr>loop_minterms = sort ms, loop_bits = bs\<rparr>"

text \<open>The decimal numeral of a position, for the placeholder name \<^verbatim>\<open>x${i}\<close>.\<close>

definition digitChar :: "nat \<Rightarrow> char" where
  "digitChar d = char_of (48 + d)"

fun showNat :: "nat \<Rightarrow> string" where
  "showNat n = (if n < 10 then [digitChar n] else showNat (n div 10) @ [digitChar (n mod 10)])"

text \<open>
  \<^verbatim>\<open>inputVariables[i] || `x${i}`\<close>: a missing name and the empty string are both falsy,
  so both are replaced by the placeholder.
\<close>

definition varNameAt :: "string list \<Rightarrow> nat \<Rightarrow> string" where
  "varNameAt inputVariables i =
     (if i < length inputVariables \<and> inputVariables ! i \<noteq> [] then inputVariables ! i
      else ''x'' @ showNat i)"

fun literals :: "ELogicState list \<Rightarrow> string list \<Rightarrow> nat \<Rightarrow> string list" where
  "literals [] inputVariables i = []"
| "literals (b # bs) inputVariables i =
     (case b of
        LFalse \<Rightarrow> (varNameAt inputVariables i @ [CHR 0x27]) # literals bs inputVariables (i + 1)
      | LTrue \<Rightarrow> varNameAt inputVariables i # literals bs inputVariables (i + 1)
      | DontCare \<Rightarrow> literals bs inputVariables (i + 1))"

definition toString :: "RequiredLoop \<Rightarrow> string list \<Rightarrow> string" where
  "toString loop inputVariables =
     (if length (loop_bits loop) = 0 then ''1''
      else if list_all (\<lambda>b. b = DontCare) (loop_bits loop) then ''1''
      else (let terms = literals (loop_bits loop) inputVariables 0
            in if length terms = 0 then ''1'' else concat terms))"

text \<open>
  The spec's reading of a bit pattern as a binary number (index 0 most significant), and
  its rendering rule for one position and for a whole pattern, for comparison with
  \<open>fromMinterm\<close> and \<open>toString\<close>.
\<close>

definition bitsValue :: "ELogicState list \<Rightarrow> int" where
  "bitsValue bs = foldl (\<lambda>acc b. 2 * acc + (if b = LTrue then 1 else 0)) 0 bs"

definition literalOf :: "ELogicState \<Rightarrow> string \<Rightarrow> string" where
  "literalOf b name = (case b of LFalse \<Rightarrow> name @ [CHR 0x27] | LTrue \<Rightarrow> name | DontCare \<Rightarrow> [])"

definition renderSpec :: "ELogicState list \<Rightarrow> string list \<Rightarrow> string" where
  "renderSpec bs names = concat (map (\<lambda>(b, name). literalOf b name) (zip bs names))"

section \<open>Groups and columns of table 1 (data/table1/group.ts, data/table1/column.ts)\<close>

text \<open>
  A \<^verbatim>\<open>Table1Group\<close> has its Hamming weight and its records. A \<^verbatim>\<open>Table1Column\<close> is a
  JavaScript \<^verbatim>\<open>Map\<close> from weights to groups; a \<^verbatim>\<open>Map\<close> iterates in insertion order, so
  the column is the list of its groups in the order they were created, with pairwise
  different weights.
\<close>

record Table1Group =
  onesCount :: nat
  records :: "Table1Record list"

type_synonym Table1Column = "Table1Group list"

definition containsRecord :: "Table1Group \<Rightarrow> Table1Record \<Rightarrow> bool" where
  "containsRecord g r = list_ex (\<lambda>x. getKey x = getKey r) (records g)"

text \<open>
  \<^verbatim>\<open>addRecord\<close>: \<^verbatim>\<open>getOrCreateGroup\<close> finds the group of the record's weight or appends a
  new, empty one; the record is pushed unless the group holds one with the same key.
\<close>

fun addToGroups :: "Table1Column \<Rightarrow> nat \<Rightarrow> Table1Record \<Rightarrow> Table1Column" where
  "addToGroups [] c r = [\<lparr>onesCount = c, records = [r]\<rparr>]"
| "addToGroups (g # gs) c r =
     (if onesCount g = c
      then (if containsRecord g r then g else g\<lparr>records := records g @ [r]\<rparr>) # gs
      else g # addToGroups gs c r)"

definition addRecord :: "Table1Column \<Rightarrow> Table1Record \<Rightarrow> Table1Column" where
  "addRecord column r = addToGroups column (countOnes r) r"

definition getSortedGroups :: "Table1Column \<Rightarrow> Table1Group list" where
  "getSortedGroups column = sort_key onesCount column"

definition getAllRecords :: "Table1Column \<Rightarrow> Table1Record list" where
  "getAllRecords column = concat (map records column)"

definition getUnusedRecords :: "Table1Column \<Rightarrow> Table1Record list" where
  "getUnusedRecords column = filter (\<lambda>r. \<not> isUsed r) (concat (map records column))"

definition isEmpty :: "Table1Column \<Rightarrow> bool" where
  "isEmpty column = (length column = 0)"

section \<open>The combination pass (quine-mccluskey-solver.ts, combineColumn)\<close>

text \<open>
  \<^verbatim>\<open>combineColumn\<close> sets \<^verbatim>\<open>isUsed\<close> on records of the column it reads and fills the next
  column. The three nested loops pass the records they mark and the next column along.
  \<open>innerLoop\<close> is the loop over \<^verbatim>\<open>record2\<close> for one \<^verbatim>\<open>record1\<close>; \<open>outerLoop\<close> the loop
  over \<^verbatim>\<open>record1\<close>; \<open>groupsLoop\<close> the loop over the pairs \<^verbatim>\<open>groups[i]\<close>, \<^verbatim>\<open>groups[i + 1]\<close>
  of the sorted groups.
\<close>

fun innerLoop :: "Table1Record \<Rightarrow> Table1Record list \<Rightarrow> Table1Column
    \<Rightarrow> Table1Record \<times> Table1Record list \<times> Table1Column" where
  "innerLoop record1 [] nextColumn = (record1, [], nextColumn)"
| "innerLoop record1 (record2 # rest) nextColumn =
     (let differPos = canCombineWith record1 record2 in
      if differPos \<ge> 0 then
        (let combined = combineWith record1 record2 differPos;
             (record1', rest', nextColumn') =
                innerLoop (record1\<lparr>isUsed := True\<rparr>) rest (addRecord nextColumn combined)
         in (record1', record2\<lparr>isUsed := True\<rparr> # rest', nextColumn'))
      else
        (let (record1', rest', nextColumn') = innerLoop record1 rest nextColumn
         in (record1', record2 # rest', nextColumn')))"

fun outerLoop :: "Table1Record list \<Rightarrow> Table1Record list \<Rightarrow> Table1Column
    \<Rightarrow> Table1Record list \<times> Table1Record list \<times> Table1Column" where
  "outerLoop [] nextRecords nextColumn = ([], nextRecords, nextColumn)"
| "outerLoop (record1 # rest) nextRecords nextColumn =
     (let (record1', nextRecords', nextColumn') = innerLoop record1 nextRecords nextColumn;
          (rest', nextRecords'', nextColumn'') = outerLoop rest nextRecords' nextColumn'
      in (record1' # rest', nextRecords'', nextColumn''))"

fun groupsLoop :: "Table1Group list \<Rightarrow> Table1Column \<Rightarrow> Table1Group list \<times> Table1Column" where
  "groupsLoop (currentGroup # nextGroup # groups) nextColumn =
     (let (current', next', nextColumn') =
            outerLoop (records currentGroup) (records nextGroup) nextColumn;
          (groups', nextColumn'') =
            groupsLoop (nextGroup\<lparr>records := next'\<rparr> # groups) nextColumn'
      in (currentGroup\<lparr>records := current'\<rparr> # groups', nextColumn''))"
| "groupsLoop groups nextColumn = (groups, nextColumn)"

text \<open>
  The sorted array holds the column's own group objects, so the flags set through it show
  in the column: every group of the column is read back by its weight.
\<close>

definition writeBack :: "Table1Group list \<Rightarrow> Table1Column \<Rightarrow> Table1Column" where
  "writeBack groups column =
     map (\<lambda>g. case find (\<lambda>s. onesCount s = onesCount g) groups of Some s \<Rightarrow> s | None \<Rightarrow> g) column"

text \<open>The pass returns the column it read, with its flags, and the next column.\<close>

definition combineColumn :: "Table1Column \<Rightarrow> Table1Column \<times> Table1Column" where
  "combineColumn column =
     (let (groups', nextColumn) = groupsLoop (getSortedGroups column) []
      in (writeBack groups' column, nextColumn))"

text \<open>\<^verbatim>\<open>Table2Row.getLiteralCount\<close> counts the positions of a pattern that are not DontCare.\<close>

definition literalCount :: "Table1Record \<Rightarrow> nat" where
  "literalCount r = length (filter (\<lambda>b. b \<noteq> DontCare) (bits r))"

text \<open>
  The largest literal count in a column bounds the number of passes that can follow it.
\<close>

definition maxLiterals :: "Table1Column \<Rightarrow> nat" where
  "maxLiterals column = foldr max (map literalCount (getAllRecords column)) 0"

definition columnMeasure :: "Table1Column \<Rightarrow> nat" where
  "columnMeasure column = (if isEmpty column then 0 else Suc (maxLiterals column))"

section \<open>Prime implicant extraction (quine-mccluskey-solver.ts, findPrimeImplicants)\<close>

text \<open>
  The first column: one record per distinct term of \<^verbatim>\<open>[...minterms, ...dontcares]\<close>, added
  in order.
\<close>

definition firstColumn :: "int list \<Rightarrow> int list \<Rightarrow> nat \<Rightarrow> Table1Column" where
  "firstColumn mintermsIn dontcares numVariables =
     foldl (\<lambda>column term. addRecord column (fromMinterm term numVariables)) []
       (uniq (mintermsIn @ dontcares))"

text \<open>
  The loop \<^verbatim>\<open>while (!currentColumn.isEmpty())\<close>: one pass, then the unused records of the
  column just read are appended to \<^verbatim>\<open>allPrimeImplicants\<close>.
\<close>

function primeLoop :: "Table1Column \<Rightarrow> Table1Record list \<Rightarrow> Table1Record list" where
  "primeLoop currentColumn allPrimeImplicants =
     (if isEmpty currentColumn then allPrimeImplicants
      else (let (currentColumn', nextColumn) = combineColumn currentColumn
            in primeLoop nextColumn (allPrimeImplicants @ getUnusedRecords currentColumn')))"
  by pat_completeness auto

text \<open>
  The same loop with a budget of passes: \<open>None\<close> when the budget runs out before a column
  is empty.
\<close>

fun primeLoopBounded :: "nat \<Rightarrow> Table1Column \<Rightarrow> Table1Record list \<Rightarrow> Table1Record list option" where
  "primeLoopBounded budget currentColumn allPrimeImplicants =
     (if isEmpty currentColumn then Some allPrimeImplicants
      else (case budget of
              0 \<Rightarrow> None
            | Suc budget' \<Rightarrow>
                (let (currentColumn', nextColumn) = combineColumn currentColumn
                 in primeLoopBounded budget' nextColumn
                      (allPrimeImplicants @ getUnusedRecords currentColumn'))))"

text \<open>\<^verbatim>\<open>deduplicatePrimeImplicants\<close>: the first record of every key is kept.\<close>

fun dedupLoop :: "Table1Record list \<Rightarrow> int list list \<Rightarrow> Table1Record list \<Rightarrow> Table1Record list" where
  "dedupLoop [] seen unique = unique"
| "dedupLoop (imp # implicants) seen unique =
     (let key = getKey imp in
      if key \<notin> set seen then dedupLoop implicants (seen @ [key]) (unique @ [imp])
      else dedupLoop implicants seen unique)"

definition deduplicatePrimeImplicants :: "Table1Record list \<Rightarrow> Table1Record list" where
  "deduplicatePrimeImplicants implicants = dedupLoop implicants [] []"

definition findPrimeImplicants :: "int list \<Rightarrow> int list \<Rightarrow> nat \<Rightarrow> Table1Record list" where
  "findPrimeImplicants mintermsIn dontcares numVariables =
     deduplicatePrimeImplicants (primeLoop (firstColumn mintermsIn dontcares numVariables) [])"

section \<open>The coverage table (data/table2/row.ts, column.ts, table2.ts)\<close>

text \<open>
  A row wraps a prime implicant. Its \<^verbatim>\<open>coverage\<close> is a \<^verbatim>\<open>Map\<close> whose keys are the record's
  minterms (every value is \<^verbatim>\<open>true\<close>), kept here as the list of keys in insertion order.
\<close>

record Table2Row =
  rowRecord :: Table1Record
  coverage :: "int list"
  isSelected :: bool

definition Table2Row_new :: "Table1Record \<Rightarrow> Table2Row" where
  "Table2Row_new r = \<lparr>rowRecord = r, coverage = uniq (minterms r), isSelected = False\<rparr>"

definition coversMinterm :: "Table2Row \<Rightarrow> int \<Rightarrow> bool" where
  "coversMinterm row m = (m \<in> set (coverage row))"

definition getCoveredMinterms :: "Table2Row \<Rightarrow> int list" where
  "getCoveredMinterms row = coverage row"

definition countCoverage :: "Table2Row \<Rightarrow> int list \<Rightarrow> nat" where
  "countCoverage row uncovered = length (filter (\<lambda>m. m \<in> set uncovered) (coverage row))"

definition getLiteralCount :: "Table2Row \<Rightarrow> nat" where
  "getLiteralCount row = literalCount (rowRecord row)"

record Table2Column =
  minterm :: int
  isCovered :: bool

definition Table2Column_new :: "int \<Rightarrow> Table2Column" where
  "Table2Column_new m = \<lparr>minterm = m, isCovered = False\<rparr>"

text \<open>
  The table: its rows, its columns, and the set \<^verbatim>\<open>uncoveredMinterms\<close> (a \<^verbatim>\<open>Set\<close>, kept as
  the list of its elements in insertion order). Rows are objects the table shares with
  its callers; the model names a row by its index in \<^verbatim>\<open>rows\<close>.
\<close>

record Table2 =
  rows :: "Table2Row list"
  columns :: "Table2Column list"
  uncoveredMinterms :: "int list"

definition Table2_new :: "Table1Record list \<Rightarrow> int list \<Rightarrow> Table2" where
  "Table2_new primeImplicants mintermsIn =
     \<lparr>rows = map Table2Row_new primeImplicants,
      columns = map Table2Column_new mintermsIn,
      uncoveredMinterms = uniq mintermsIn\<rparr>"

text \<open>
  \<^verbatim>\<open>markCovered\<close>: for every minterm of the row, \<^verbatim>\<open>columns.find\<close> gives the first column
  of that minterm, which is marked, and the minterm leaves \<^verbatim>\<open>uncoveredMinterms\<close>.
\<close>

fun markFirst :: "Table2Column list \<Rightarrow> int \<Rightarrow> Table2Column list" where
  "markFirst [] m = []"
| "markFirst (c # cs) m =
     (if minterm c = m then c\<lparr>isCovered := True\<rparr> # cs else c # markFirst cs m)"

definition markOne :: "Table2 \<Rightarrow> int \<Rightarrow> Table2" where
  "markOne t m =
     t\<lparr>columns := markFirst (columns t) m,
       uncoveredMinterms := removeAll m (uncoveredMinterms t)\<rparr>"

definition markCovered :: "Table2 \<Rightarrow> Table2Row \<Rightarrow> Table2" where
  "markCovered t row = foldl markOne t (getCoveredMinterms row)"

definition setSelected :: "Table2 \<Rightarrow> nat \<Rightarrow> Table2" where
  "setSelected t i = t\<lparr>rows := (rows t)[i := (rows t ! i)\<lparr>isSelected := True\<rparr>]\<rparr>"

definition selectRow :: "Table2 \<Rightarrow> nat \<Rightarrow> Table2" where
  "selectRow t i = (let t' = setSelected t i in markCovered t' (rows t' ! i))"

definition getUncoveredMinterms :: "Table2 \<Rightarrow> int list" where
  "getUncoveredMinterms t = uncoveredMinterms t"

text \<open>The filters over \<^verbatim>\<open>rows\<close> return rows in table order, here as indices.\<close>

definition getUnselectedRows :: "Table2 \<Rightarrow> nat list" where
  "getUnselectedRows t = filter (\<lambda>i. \<not> isSelected (rows t ! i)) [0..<length (rows t)]"

definition getSelectedRows :: "Table2 \<Rightarrow> nat list" where
  "getSelectedRows t = filter (\<lambda>i. isSelected (rows t ! i)) [0..<length (rows t)]"

definition isFullyCovered :: "Table2 \<Rightarrow> bool" where
  "isFullyCovered t = (length (uncoveredMinterms t) = 0)"

text \<open>
  \<^verbatim>\<open>findEssentialPrimeImplicants\<close>: one step per column, in order. \<open>coveringRows\<close> is the
  filter of the unselected rows that cover the column's minterm. The pair carries the
  array \<^verbatim>\<open>essential\<close> (rows in the order they were found) and the table.
\<close>

definition coveringRows :: "Table2 \<Rightarrow> int \<Rightarrow> nat list" where
  "coveringRows t m =
     filter (\<lambda>i. \<not> isSelected (rows t ! i) \<and> coversMinterm (rows t ! i) m) [0..<length (rows t)]"

definition essentialStep :: "nat list \<times> Table2 \<Rightarrow> nat \<Rightarrow> nat list \<times> Table2" where
  "essentialStep s j =
     (let essential = fst s; t = snd s; column = columns t ! j in
      if isCovered column then (essential, t)
      else (let covering = coveringRows t (minterm column) in
            if length covering = 1 then
              (let essentialRow = covering ! 0 in
               if \<not> isSelected (rows t ! essentialRow)
               then (let t' = setSelected t essentialRow
                     in (essential @ [essentialRow], markCovered t' (rows t' ! essentialRow)))
               else (essential, t))
            else (essential, t)))"

definition essentialPass :: "Table2 \<Rightarrow> nat \<Rightarrow> nat list \<times> Table2" where
  "essentialPass t k = foldl essentialStep ([], t) [0..<k]"

definition findEssentialPrimeImplicants :: "Table2 \<Rightarrow> nat list \<times> Table2" where
  "findEssentialPrimeImplicants t = essentialPass t (length (columns t))"

section \<open>The residual cover (quine-mccluskey-solver.ts, applyPetricksMethod)\<close>

text \<open>
  The candidates are the unselected rows that cover an uncovered minterm. They are sorted
  by coverage (descending), then by literal count (ascending); the sort is stable, and
  the first one is selected.
\<close>

definition candidatesOf :: "Table2 \<Rightarrow> nat list" where
  "candidatesOf t =
     (let currentUncovered = getUncoveredMinterms t
      in filter (\<lambda>i. countCoverage (rows t ! i) currentUncovered > 0) (getUnselectedRows t))"

definition sortCandidates :: "Table2 \<Rightarrow> nat list \<Rightarrow> nat list" where
  "sortCandidates t candidates =
     (let currentUncovered = getUncoveredMinterms t
      in sort_key (\<lambda>i. (- int (countCoverage (rows t ! i) currentUncovered),
                         getLiteralCount (rows t ! i))) candidates)"

function petrickLoop :: "Table2 \<Rightarrow> Table2" where
  "petrickLoop t =
     (if isFullyCovered t then t
      else (let candidates = candidatesOf t in
            if length candidates = 0 then t
            else petrickLoop (selectRow t (sortCandidates t candidates ! 0))))"
  by pat_completeness auto

definition applyPetricksMethod :: "Table2 \<Rightarrow> Table2" where
  "applyPetricksMethod t =
     (let uncovered = getUncoveredMinterms t; unselectedRows = getUnselectedRows t in
      if length uncovered = 0 \<or> length unselectedRows = 0 then t
      else (let relevantRows = filter (\<lambda>i. countCoverage (rows t ! i) uncovered > 0) unselectedRows in
            if length relevantRows = 0 then t else petrickLoop t))"

text \<open>The table when \<^verbatim>\<open>selectPrimeImplicants\<close> returns, and the records it returns.\<close>

definition finalTable :: "Table1Record list \<Rightarrow> int list \<Rightarrow> Table2" where
  "finalTable primeImplicants mintermsIn =
     (let table2 = Table2_new primeImplicants mintermsIn;
          table2' = snd (findEssentialPrimeImplicants table2)
      in if isFullyCovered table2' then table2' else applyPetricksMethod table2')"

definition selectPrimeImplicants :: "Table1Record list \<Rightarrow> int list \<Rightarrow> Table1Record list" where
  "selectPrimeImplicants primeImplicants mintermsIn =
     (let t = finalTable primeImplicants mintermsIn
      in map (\<lambda>i. rowRecord (rows t ! i)) (getSelectedRows t))"

section \<open>The solver entry point (quine-mccluskey-solver.ts, solve)\<close>

text \<open>
  \<^verbatim>\<open>1 << vars\<close> is a 32-bit shift: the count is taken modulo 32 and the result read as a
  signed 32-bit integer. The subtraction that follows is on numbers and does not wrap.
\<close>

definition shiftLeftOne :: "nat \<Rightarrow> int" where
  "shiftLeftOne vars = sint (push_bit (vars mod 32) (1 :: 32 word))"

definition maxPossibleTerm :: "nat \<Rightarrow> int" where
  "maxPossibleTerm vars = shiftLeftOne vars - 1"

datatype error = TermExceedsMaximum int int nat

text \<open>
  \<open>solve\<close> for a given variable count (the parameter \<^verbatim>\<open>numVariables\<close>; the detection of a
  missing count uses floating-point logarithms and is not modelled). The error carries
  the three values the message prints: the term, the maximum and the variable count.
\<close>

definition solve :: "int list \<Rightarrow> int list \<Rightarrow> nat \<Rightarrow> error + RequiredLoop list" where
  "solve mintermsIn dontcares vars =
     (if length mintermsIn = 0 then Inr []
      else (let allTerms = mintermsIn @ dontcares
            in case find (\<lambda>term. term > maxPossibleTerm vars) allTerms of
                 Some term \<Rightarrow> Inl (TermExceedsMaximum term (maxPossibleTerm vars) vars)
               | None \<Rightarrow>
                   (let primeImplicants = findPrimeImplicants mintermsIn dontcares vars in
                    if length primeImplicants = 0 then Inr []
                    else Inr (map (\<lambda>r. RequiredLoop_new (minterms r) (bits r))
                                (selectPrimeImplicants primeImplicants mintermsIn)))))"

section \<open>The essential selection in the words of the specification\<close>

text \<open>
  The definitions of this section do not come from the source: they follow the wording of
  the specification, section 4.4, and of its glossary, and serve as the other side of the
  comparison with \<open>findEssentialPrimeImplicants\<close>.

  A minterm is covered when some selected row covers it; this is what the flag
  \<^verbatim>\<open>isCovered\<close> of a column is meant to record. \<open>allCoveringRows\<close> lists all the rows that
  cover a minterm, selected or not: a prime implicant is essential when it is the only one
  covering some required minterm.
\<close>

definition selectedCovers :: "Table2 \<Rightarrow> int \<Rightarrow> bool" where
  "selectedCovers t m = (\<exists>row\<in>set (rows t). isSelected row \<and> coversMinterm row m)"

definition allCoveringRows :: "Table2 \<Rightarrow> int \<Rightarrow> nat list" where
  "allCoveringRows t m = filter (\<lambda>i. coversMinterm (rows t ! i) m) [0..<length (rows t)]"

text \<open>
  The selection, as the specification words it: for every uncovered column, count the
  unselected rows that cover it; if exactly one such row exists, that row is essential:
  select it, and mark every column it covers as covered; repeat until no column yields a
  unique coverer. \<open>specMarkCovered\<close> marks every column the row covers, \<open>specUnique\<close> says that a column yields a unique coverer,
  \<open>specStep\<close> treats one column, \<open>specSweep\<close> all of them in order, and \<open>specEssential\<close>
  repeats the sweep until no column yields a unique coverer.
\<close>

definition specMarkCovered :: "Table2 \<Rightarrow> Table2Row \<Rightarrow> Table2" where
  "specMarkCovered t row =
     t\<lparr>columns := map (\<lambda>c. if coversMinterm row (minterm c) then c\<lparr>isCovered := True\<rparr> else c)
                    (columns t),
       uncoveredMinterms := filter (\<lambda>m. \<not> coversMinterm row m) (uncoveredMinterms t)\<rparr>"

definition specUnique :: "Table2 \<Rightarrow> nat \<Rightarrow> bool" where
  "specUnique t j =
     (\<not> isCovered (columns t ! j) \<and> length (coveringRows t (minterm (columns t ! j))) = 1)"

definition specStep :: "Table2 \<Rightarrow> nat \<Rightarrow> Table2" where
  "specStep t j =
     (if specUnique t j
      then (let i = hd (coveringRows t (minterm (columns t ! j)))
            in specMarkCovered (setSelected t i) (rows t ! i))
      else t)"

definition specSweep :: "Table2 \<Rightarrow> Table2" where
  "specSweep t = foldl specStep t [0..<length (columns t)]"

function specEssential :: "Table2 \<Rightarrow> Table2" where
  "specEssential t =
     (if list_ex (specUnique t) [0..<length (columns t)] then specEssential (specSweep t) else t)"
  by pat_completeness auto

section \<open>Predicates of the proofs\<close>

text \<open>
  A record \<open>r\<close> is covered by a column when some record of the column holds all its
  minterms. \<open>marks nc a b\<close> relates a record \<open>a\<close> to its state \<open>b\<close> after some steps of a pass
  that fills \<open>nc\<close>: nothing but the flag has changed, and a flag set by the pass means that
  the record is covered by \<open>nc\<close>. \<open>grel\<close> lifts this to groups.
\<close>

definition covered :: "Table1Column \<Rightarrow> Table1Record \<Rightarrow> bool" where
  "covered nc r = (\<exists>c\<in>set (getAllRecords nc). set (minterms r) \<subseteq> set (minterms c))"

definition marks :: "Table1Column \<Rightarrow> Table1Record \<Rightarrow> Table1Record \<Rightarrow> bool" where
  "marks nc a b = (minterms b = minterms a \<and> bits b = bits a \<and> (isUsed b \<longrightarrow> isUsed a \<or> covered nc a))"

definition grel :: "Table1Column \<Rightarrow> Table1Group \<Rightarrow> Table1Group \<Rightarrow> bool" where
  "grel nc g g' = (onesCount g' = onesCount g \<and> list_all2 (marks nc) (records g) (records g'))"

text \<open>
  A next column is fresh when its groups are non-empty and have different weights, and its
  records are unused, have fewer than \<open>M\<close> literals and minterms among \<open>T\<close>. A column read by
  the extraction loop has groups of different weights and unused records with minterms
  among \<open>T\<close>.
\<close>

definition fresh :: "nat \<Rightarrow> int set \<Rightarrow> Table1Column \<Rightarrow> bool" where
  "fresh M T nc = ((\<forall>g\<in>set nc. records g \<noteq> []) \<and> distinct (map onesCount nc) \<and>
     (\<forall>c\<in>set (getAllRecords nc). \<not> isUsed c \<and> literalCount c < M \<and> set (minterms c) \<subseteq> T))"

definition columnOK :: "int set \<Rightarrow> Table1Column \<Rightarrow> bool" where
  "columnOK T col = (distinct (map onesCount col) \<and>
     (\<forall>r\<in>set (getAllRecords col). \<not> isUsed r \<and> set (minterms r) \<subseteq> T))"

text \<open>
  The invariant of the coverage table for the requested minterms \<open>ms\<close>: no minterm of a
  selected row is in \<^verbatim>\<open>uncoveredMinterms\<close>; every requested minterm is in that set or in a
  selected row; the set holds requested minterms only. \<open>sameRows\<close> says that two tables
  have the same rows up to the selection flags, \<open>rowsCover\<close> that every requested minterm
  is in some row.
\<close>

definition tableInv :: "int list \<Rightarrow> Table2 \<Rightarrow> bool" where
  "tableInv ms t =
     ((\<forall>i<length (rows t). isSelected (rows t ! i) \<longrightarrow>
          set (coverage (rows t ! i)) \<inter> set (uncoveredMinterms t) = {})
      \<and> (\<forall>m\<in>set ms. m \<in> set (uncoveredMinterms t)
            \<or> (\<exists>i<length (rows t). isSelected (rows t ! i) \<and> m \<in> set (coverage (rows t ! i))))
      \<and> set (uncoveredMinterms t) \<subseteq> set ms)"

definition sameRows :: "Table2 \<Rightarrow> Table2 \<Rightarrow> bool" where
  "sameRows t t' =
     (length (rows t') = length (rows t)
      \<and> (\<forall>i<length (rows t). rowRecord (rows t' ! i) = rowRecord (rows t ! i)
            \<and> coverage (rows t' ! i) = coverage (rows t ! i)))"

definition rowsCover :: "int list \<Rightarrow> Table2 \<Rightarrow> bool" where
  "rowsCover ms t = (\<forall>m\<in>set ms. \<exists>i<length (rows t). m \<in> set (coverage (rows t ! i)))"

text \<open>
  The invariant of the essential pass after the steps for the first \<open>k\<close> columns: the
  columns still carry the requested minterms, and none of the first \<open>k\<close> columns is
  uncovered with exactly one unselected covering row.
\<close>

definition passInv :: "int list \<Rightarrow> nat \<Rightarrow> Table2 \<Rightarrow> bool" where
  "passInv ms k t =
     (map minterm (columns t) = ms
      \<and> (\<forall>j<k. \<not> isCovered (columns t ! j) \<longrightarrow> length (coveringRows t (ms ! j)) \<noteq> 1))"

text \<open>
  The invariant that ties the essential pass to the specification after the steps for the
  first \<open>k\<close> columns: the columns carry the requested minterms; a column is flagged exactly
  when a selected row covers its minterm; every selected row is the only row covering some
  requested minterm; and for each of the first \<open>k\<close> columns, a row that is the only one
  covering its minterm is selected.
\<close>

definition essInv :: "int list \<Rightarrow> nat \<Rightarrow> Table2 \<Rightarrow> bool" where
  "essInv ms k t =
     (map minterm (columns t) = ms
      \<and> (\<forall>j<length ms. isCovered (columns t ! j) = selectedCovers t (ms ! j))
      \<and> (\<forall>i<length (rows t). isSelected (rows t ! i) \<longrightarrow> (\<exists>m\<in>set ms. allCoveringRows t m = [i]))
      \<and> (\<forall>j<k. \<forall>i. allCoveringRows t (ms ! j) = [i] \<longrightarrow> isSelected (rows t ! i)))"

section \<open>Properties of the term records\<close>

declare showNat.simps [simp del]

lemma and_one_neq_zero_iff: "((x::32 word) AND 1 \<noteq> 0) = bit x 0"
  by (simp add: and_one_eq bit_0 odd_iff_mod_2_eq_one)

lemma bit_signed_drop_bit_zero: "k < 32 \<Longrightarrow> bit (signed_drop_bit k (word_of_int m :: 32 word)) 0 = bit m k"
  by (simp add: bit_signed_drop_bit_iff bit_word_of_int_iff)

lemma jsBit_eq: "jsBit m i = bit m (i mod 32)"
  unfolding jsBit_def toInt32_def and_one_neq_zero_iff by (rule bit_signed_drop_bit_zero) simp

lemma foldl_bits:
  "v \<le> 32 \<Longrightarrow> foldl (\<lambda>acc b. 2 * acc + (if b = LTrue then 1 else 0)) acc
      (map (\<lambda>i. if jsBit m i then LTrue else LFalse) (rev [0..<v])) = acc * 2 ^ v + take_bit v m"
proof (induction v arbitrary: acc)
  case 0 then show ?case by simp
next
  case (Suc v)
  then show ?case
    by (simp add: jsBit_eq take_bit_Suc_from_most algebra_simps)
qed

lemma scanBits_sym: "scanBits as bs i p c = scanBits bs as i p c"
  by (induction as bs i p c rule: scanBits.induct) auto

lemma scanBits_result:
  "scanBits as bs i p c = r \<Longrightarrow> r \<noteq> p \<Longrightarrow> r \<noteq> - 1 \<Longrightarrow>
     int i \<le> r \<and> nat r - i < length as \<and> nat r - i < length bs
     \<and> as ! (nat r - i) \<noteq> DontCare \<and> bs ! (nat r - i) \<noteq> DontCare
     \<and> as ! (nat r - i) \<noteq> bs ! (nat r - i)"
proof (induction as bs i p c arbitrary: r rule: scanBits.induct)
  case (1 a as b bs i p c)
  show ?case
  proof (cases "a \<noteq> b")
    case True
    note ab = this
    show ?thesis
    proof (cases "a = DontCare \<or> b = DontCare \<or> c + 1 > 1")
      case True
      with ab 1(3,5) show ?thesis by (auto split: if_splits)
    next
      case False
      with ab 1(3) have rec: "scanBits as bs (i + 1) (int i) (c + 1) = r" by simp
      show ?thesis
      proof (cases "r = int i")
        case True
        with ab False show ?thesis by simp
      next
        case False2: False
        from 1(1)[OF ab _ _ rec False2 1(5)] False
        have "int (i + 1) \<le> r \<and> nat r - (i + 1) < length as \<and> nat r - (i + 1) < length bs
     \<and> as ! (nat r - (i + 1)) \<noteq> DontCare \<and> bs ! (nat r - (i + 1)) \<noteq> DontCare
     \<and> as ! (nat r - (i + 1)) \<noteq> bs ! (nat r - (i + 1))" by simp
        moreover then have "nat r - i = Suc (nat r - (i + 1))" by linarith
        ultimately show ?thesis by simp
      qed
    qed
  next
    case False
    with 1(3) have rec: "scanBits as bs (i + 1) p c = r" by simp
    from 1(2)[OF _ rec 1(4) 1(5)] False
    have "int (i + 1) \<le> r \<and> nat r - (i + 1) < length as \<and> nat r - (i + 1) < length bs
     \<and> as ! (nat r - (i + 1)) \<noteq> DontCare \<and> bs ! (nat r - (i + 1)) \<noteq> DontCare
     \<and> as ! (nat r - (i + 1)) \<noteq> bs ! (nat r - (i + 1))" by simp
    moreover then have "nat r - i = Suc (nat r - (i + 1))" by linarith
    ultimately show ?thesis by simp
  qed
qed simp_all

lemma canCombineWith_range:
  assumes "canCombineWith a b = p" "0 \<le> p"
  shows "nat p < length (bits a) \<and> nat p < length (bits b)
     \<and> bits a ! nat p \<noteq> DontCare \<and> bits b ! nat p \<noteq> DontCare \<and> bits a ! nat p \<noteq> bits b ! nat p"
proof -
  from assms have "scanBits (bits a) (bits b) 0 (- 1) 0 = p"
    by (auto simp: canCombineWith_def split: if_splits)
  from scanBits_result[OF this] assms(2) show ?thesis by simp
qed

lemma set_uniq [simp]: "set (uniq xs) = set xs"
  by (induction xs rule: uniq.induct) auto

lemma distinct_uniq [simp]: "distinct (uniq xs)"
  by (induction xs rule: uniq.induct) auto

lemma sort_uniq: "sort (uniq xs) = sorted_list_of_set (set xs)"
proof -
  have "sort (uniq xs) = sort (remdups xs)"
    by (rule sorted_distinct_set_unique) simp_all
  then show ?thesis by (simp add: sorted_list_of_set_sort_remdups)
qed

section \<open>Properties of the rendering\<close>

lemma literals_concat:
  "i + length bs \<le> length names \<Longrightarrow> \<forall>j<length bs. names ! (i + j) \<noteq> [] \<Longrightarrow>
     concat (literals bs names i) = renderSpec bs (drop i names)"
proof (induction bs arbitrary: i)
  case Nil
  then show ?case by (simp add: renderSpec_def)
next
  case (Cons b bs)
  from Cons.prems have i: "i < length names" and ne: "names ! i \<noteq> []" by auto
  have d: "drop i names = names ! i # drop (Suc i) names"
    using i by (simp add: Cons_nth_drop_Suc)
  have "names ! (Suc i + j) \<noteq> []" if "j < length bs" for j
    using Cons.prems(2)[rule_format, of "Suc j"] that by simp
  then have IH: "concat (literals bs names (Suc i)) = renderSpec bs (drop (Suc i) names)"
    using Cons.IH[of "Suc i"] Cons.prems(1) by simp
  show ?case using IH i ne
    by (cases b) (simp_all add: d renderSpec_def literalOf_def varNameAt_def)
qed

lemma literals_empty: "literals bs names i = [] \<longleftrightarrow> (\<forall>b\<in>set bs. b = DontCare)"
  by (induction bs arbitrary: i) (auto split: ELogicState.splits)

section \<open>Properties of the combination pass\<close>

lemma getAllRecords_addToGroups:
  "set (getAllRecords (addToGroups nc k c)) \<subseteq> insert c (set (getAllRecords nc))
   \<and> set (getAllRecords nc) \<subseteq> set (getAllRecords (addToGroups nc k c))
   \<and> (\<exists>c'\<in>set (getAllRecords (addToGroups nc k c)). minterms c' = minterms c)
   \<and> set (map onesCount (addToGroups nc k c)) = insert k (set (map onesCount nc))"
proof (induction nc)
  case Nil
  show ?case by (simp add: getAllRecords_def)
next
  case (Cons g gs)
  show ?case
  proof (cases "onesCount g = k")
    case True
    then show ?thesis
      by (auto simp: getAllRecords_def containsRecord_def list_ex_iff getKey_def)
  next
    case False
    with Cons show ?thesis
      by (auto simp: getAllRecords_def)
  qed
qed

lemma addToGroups_nonempty:
  "\<forall>g\<in>set nc. records g \<noteq> [] \<Longrightarrow> \<forall>g\<in>set (addToGroups nc k c). records g \<noteq> []"
  by (induction nc) auto

lemma addToGroups_distinct:
  "distinct (map onesCount nc) \<Longrightarrow> distinct (map onesCount (addToGroups nc k c))"
proof (induction nc)
  case Nil then show ?case by simp
next
  case (Cons g gs)
  have "set (map onesCount (addToGroups gs k c)) = insert k (set (map onesCount gs))"
    using getAllRecords_addToGroups[of gs k c] by blast
  with Cons show ?case by auto
qed

lemma addRecord_mono: "set (getAllRecords nc) \<subseteq> set (getAllRecords (addRecord nc c))"
  using getAllRecords_addToGroups[of nc "countOnes c" c] by (simp add: addRecord_def)

lemma addRecord_has: "\<exists>c'\<in>set (getAllRecords (addRecord nc c)). minterms c' = minterms c"
  using getAllRecords_addToGroups[of nc "countOnes c" c] by (simp add: addRecord_def)

lemma addRecord_fresh:
  assumes "fresh M T nc" "\<not> isUsed c" "literalCount c < M" "set (minterms c) \<subseteq> T"
  shows "fresh M T (addRecord nc c)"
proof -
  have sub: "set (getAllRecords (addRecord nc c)) \<subseteq> insert c (set (getAllRecords nc))"
    using getAllRecords_addToGroups[of nc "countOnes c" c] by (simp add: addRecord_def)
  have 1: "\<forall>g\<in>set (addRecord nc c). records g \<noteq> []"
    using assms(1) addToGroups_nonempty[of nc "countOnes c" c] unfolding fresh_def addRecord_def by blast
  have 2: "distinct (map onesCount (addRecord nc c))"
    using assms(1) addToGroups_distinct[of nc "countOnes c" c] unfolding fresh_def addRecord_def by blast
  have 3: "\<not> isUsed x \<and> literalCount x < M \<and> set (minterms x) \<subseteq> T"
    if "x \<in> set (getAllRecords (addRecord nc c))" for x
  proof -
    from that sub have "x = c \<or> x \<in> set (getAllRecords nc)" by blast
    then show ?thesis using assms unfolding fresh_def by blast
  qed
  from 1 2 3 show ?thesis unfolding fresh_def by blast
qed

lemma covered_mono:
  "set (getAllRecords nc) \<subseteq> set (getAllRecords nc') \<Longrightarrow> covered nc r \<Longrightarrow> covered nc' r"
  by (auto simp: covered_def)

lemma marks_mono:
  "set (getAllRecords nc) \<subseteq> set (getAllRecords nc') \<Longrightarrow> marks nc a b \<Longrightarrow> marks nc' a b"
  by (auto simp: marks_def dest: covered_mono)

lemma marks_refl: "marks nc a a"
  by (simp add: marks_def)

lemma marks_trans: "marks nc a b \<Longrightarrow> marks nc b c \<Longrightarrow> marks nc a c"
  by (auto simp: marks_def covered_def)

lemma filter_update_DontCare:
  "i < length bs \<Longrightarrow> bs ! i \<noteq> DontCare \<Longrightarrow>
     Suc (length (filter (\<lambda>b. b \<noteq> DontCare) (bs[i := DontCare]))) = length (filter (\<lambda>b. b \<noteq> DontCare) bs)"
proof (induction bs arbitrary: i)
  case Nil then show ?case by simp
next
  case (Cons b bs)
  then show ?case by (cases i) auto
qed

lemma combineWith_props:
  assumes "canCombineWith a b = p" "0 \<le> p"
  shows "\<not> isUsed (combineWith a b p)"
    and "Suc (literalCount (combineWith a b p)) = literalCount a"
    and "set (minterms (combineWith a b p)) = set (minterms a) \<union> set (minterms b)"
    and "length (bits (combineWith a b p)) = length (bits a)"
  using canCombineWith_range[OF assms] assms(2)
  by (simp_all add: combineWith_def Table1Record_new_def assignIndex_def literalCount_def filter_update_DontCare)

lemma innerLoop_props:
  assumes "innerLoop r1 rs nc = (r1', rs', nc')"
    and "fresh M T nc" "literalCount r1 \<le> M" "set (minterms r1) \<subseteq> T"
    and "\<forall>r\<in>set rs. set (minterms r) \<subseteq> T"
  shows "set (getAllRecords nc) \<subseteq> set (getAllRecords nc') \<and> fresh M T nc'
     \<and> marks nc' r1 r1' \<and> list_all2 (marks nc') rs rs'"
  using assms
proof (induction rs arbitrary: r1 nc r1' rs' nc')
  case Nil
  then show ?case by (simp add: marks_refl)
next
  case (Cons r2 rest)
  let ?p = "canCombineWith r1 r2"
  show ?case
  proof (cases "?p \<ge> 0")
    case True
    let ?c = "combineWith r1 r2 ?p"
    let ?nc1 = "addRecord nc ?c"
    obtain a b c where rec: "innerLoop (r1\<lparr>isUsed := True\<rparr>) rest ?nc1 = (a, b, c)"
      by (metis prod_cases3)
    with Cons.prems(1) True have eqs: "r1' = a" "rs' = r2\<lparr>isUsed := True\<rparr> # b" "nc' = c"
      by (simp_all add: Let_def)
    have cp: "\<not> isUsed ?c" "Suc (literalCount ?c) = literalCount r1"
      "set (minterms ?c) = set (minterms r1) \<union> set (minterms r2)"
      using combineWith_props[OF refl True] by blast+
    have fr1: "fresh M T ?nc1"
      using Cons.prems cp by (intro addRecord_fresh) auto
    have IH: "set (getAllRecords ?nc1) \<subseteq> set (getAllRecords c) \<and> fresh M T c
       \<and> marks c (r1\<lparr>isUsed := True\<rparr>) a \<and> list_all2 (marks c) rest b"
      using Cons.IH[OF rec fr1] Cons.prems by (simp add: literalCount_def)
    have mono: "set (getAllRecords nc) \<subseteq> set (getAllRecords c)"
      using IH addRecord_mono[of nc ?c] by blast
    obtain c' where c': "c' \<in> set (getAllRecords ?nc1)" "minterms c' = minterms ?c"
      using addRecord_has[of nc ?c] by blast
    then have c'in: "c' \<in> set (getAllRecords c)" using IH by blast
    have sub': "set (minterms r1) \<subseteq> set (minterms c')" "set (minterms r2) \<subseteq> set (minterms c')"
      using c'(2) cp(3) by simp_all
    have cov1: "covered c r1" unfolding covered_def using sub'(1) c'in by blast
    have cov2: "covered c r2" unfolding covered_def using sub'(2) c'in by blast
    have m1: "marks c r1 a" using IH cov1 by (auto simp: marks_def)
    have m2: "marks c r2 (r2\<lparr>isUsed := True\<rparr>)" using cov2 by (simp add: marks_def)
    show ?thesis using mono IH m1 m2 by (simp add: eqs)
  next
    case False
    obtain a b c where rec: "innerLoop r1 rest nc = (a, b, c)"
      by (metis prod_cases3)
    with Cons.prems(1) False have eqs: "r1' = a" "rs' = r2 # b" "nc' = c"
      by (simp_all add: Let_def)
    have IH: "set (getAllRecords nc) \<subseteq> set (getAllRecords c) \<and> fresh M T c
       \<and> marks c r1 a \<and> list_all2 (marks c) rest b"
      using Cons.IH[OF rec] Cons.prems by simp
    then show ?thesis by (simp add: eqs marks_refl)
  qed
qed

lemma marks_list_mono:
  "set (getAllRecords nc) \<subseteq> set (getAllRecords nc') \<Longrightarrow> list_all2 (marks nc) xs ys \<Longrightarrow> list_all2 (marks nc') xs ys"
  by (erule list_all2_mono) (rule marks_mono)

lemma marks_list_trans:
  "list_all2 (marks nc) xs ys \<Longrightarrow> list_all2 (marks nc) ys zs \<Longrightarrow> list_all2 (marks nc) xs zs"
  by (rule list_all2_trans[where ?P1.0 = "marks nc" and ?P2.0 = "marks nc"]) (auto intro: marks_trans)

lemma marks_list_sub:
  assumes "list_all2 (marks nc) xs ys" "\<forall>r\<in>set xs. P (minterms r) (bits r)"
  shows "\<forall>r\<in>set ys. P (minterms r) (bits r)"
  using assms by (induction rule: list_all2_induct) (auto simp: marks_def)

lemma outerLoop_props:
  assumes "outerLoop cur nxt nc = (cur', nxt', nc')"
    and "fresh M T nc"
    and "\<forall>r\<in>set cur. literalCount r \<le> M \<and> set (minterms r) \<subseteq> T"
    and "\<forall>r\<in>set nxt. set (minterms r) \<subseteq> T"
  shows "set (getAllRecords nc) \<subseteq> set (getAllRecords nc') \<and> fresh M T nc'
     \<and> list_all2 (marks nc') cur cur' \<and> list_all2 (marks nc') nxt nxt'"
  using assms
proof (induction cur arbitrary: nxt nc cur' nxt' nc')
  case Nil
  then show ?case by (simp add: list_all2_refl marks_refl)
next
  case (Cons r1 rest)
  obtain a n1 c1 where inner: "innerLoop r1 nxt nc = (a, n1, c1)" by (metis prod_cases3)
  obtain rs' n2 c2 where outer: "outerLoop rest n1 c1 = (rs', n2, c2)" by (metis prod_cases3)
  from Cons.prems(1) inner outer have eqs: "cur' = a # rs'" "nxt' = n2" "nc' = c2"
    by simp_all
  have I: "set (getAllRecords nc) \<subseteq> set (getAllRecords c1) \<and> fresh M T c1
     \<and> marks c1 r1 a \<and> list_all2 (marks c1) nxt n1"
    using innerLoop_props[OF inner Cons.prems(2)] Cons.prems(3,4) by simp
  have n1T: "\<forall>r\<in>set n1. set (minterms r) \<subseteq> T"
    using marks_list_sub[where P = "\<lambda>m b. set m \<subseteq> T", OF _ Cons.prems(4)] I by blast
  have O: "set (getAllRecords c1) \<subseteq> set (getAllRecords c2) \<and> fresh M T c2
     \<and> list_all2 (marks c2) rest rs' \<and> list_all2 (marks c2) n1 n2"
    using Cons.IH[OF outer] I n1T Cons.prems(3) by simp
  have "marks c2 r1 a" using I O marks_mono by blast
  moreover have "list_all2 (marks c2) nxt n2"
    using I O marks_list_mono marks_list_trans by blast
  ultimately show ?case using I O by (auto simp: eqs)
qed

lemma groupsLoop_props:
  assumes "groupsLoop gs nc = (gs', nc')"
    and "fresh M T nc"
    and "\<forall>g\<in>set gs. \<forall>r\<in>set (records g). literalCount r \<le> M \<and> set (minterms r) \<subseteq> T"
  shows "set (getAllRecords nc) \<subseteq> set (getAllRecords nc') \<and> fresh M T nc'
     \<and> list_all2 (grel nc') gs gs'"
  using assms
proof (induction gs nc arbitrary: gs' nc' rule: groupsLoop.induct)
  case (1 g1 g2 gs nc)
  obtain c' n' nc1 where outer: "outerLoop (records g1) (records g2) nc = (c', n', nc1)"
    by (metis prod_cases3)
  obtain gs1 nc2 where rec: "groupsLoop (g2\<lparr>records := n'\<rparr> # gs) nc1 = (gs1, nc2)"
    by (metis surj_pair)
  from "1.prems"(1) outer rec have eqs: "gs' = g1\<lparr>records := c'\<rparr> # gs1" "nc' = nc2"
    by simp_all
  have p3: "\<forall>r\<in>set (records g1). literalCount r \<le> M \<and> set (minterms r) \<subseteq> T"
    "\<forall>r\<in>set (records g2). literalCount r \<le> M \<and> set (minterms r) \<subseteq> T"
    "\<forall>g\<in>set gs. \<forall>r\<in>set (records g). literalCount r \<le> M \<and> set (minterms r) \<subseteq> T"
    using "1.prems"(3) by simp_all
  have p3': "\<forall>r\<in>set (records g2). set (minterms r) \<subseteq> T" using p3(2) by blast
  have O: "set (getAllRecords nc) \<subseteq> set (getAllRecords nc1)" "fresh M T nc1"
     "list_all2 (marks nc1) (records g1) c'" "list_all2 (marks nc1) (records g2) n'"
    using outerLoop_props[OF outer "1.prems"(2) p3(1) p3'] by blast+
  have n'ok: "\<forall>r\<in>set n'. literalCount r \<le> M \<and> set (minterms r) \<subseteq> T"
    using marks_list_sub[where P = "\<lambda>m b. length (filter (\<lambda>b. b \<noteq> DontCare) b) \<le> M \<and> set m \<subseteq> T", OF O(4)]
      p3(2) unfolding literalCount_def by blast
  have pre: "\<forall>g\<in>set (g2\<lparr>records := n'\<rparr> # gs). \<forall>r\<in>set (records g). literalCount r \<le> M \<and> set (minterms r) \<subseteq> T"
    using n'ok p3(3) by simp
  have R: "set (getAllRecords nc1) \<subseteq> set (getAllRecords nc2)" "fresh M T nc2"
     "list_all2 (grel nc2) (g2\<lparr>records := n'\<rparr> # gs) gs1"
    using "1.IH"[OF outer[symmetric] refl refl rec O(2) pre] by blast+
  from R(3) obtain h hs where gs1: "gs1 = h # hs" "grel nc2 (g2\<lparr>records := n'\<rparr>) h" "list_all2 (grel nc2) gs hs"
    by (auto simp: list_all2_Cons1)
  have "list_all2 (marks nc2) (records g1) c'" by (rule marks_list_mono[OF R(1) O(3)])
  then have g1: "grel nc2 g1 (g1\<lparr>records := c'\<rparr>)" by (simp add: grel_def)
  have "list_all2 (marks nc2) (records g2) n'" by (rule marks_list_mono[OF R(1) O(4)])
  moreover from gs1(2) have "list_all2 (marks nc2) n' (records h)" "onesCount h = onesCount g2"
    by (simp_all add: grel_def)
  ultimately have g2: "grel nc2 g2 h"
    unfolding grel_def using marks_list_trans by blast
  have "set (getAllRecords nc) \<subseteq> set (getAllRecords nc2)" using O(1) R(1) by blast
  moreover have "list_all2 (grel nc2) (g1 # g2 # gs) (g1\<lparr>records := c'\<rparr> # gs1)"
    using g1 g2 gs1(1,3) by simp
  ultimately show ?case using R(2) unfolding eqs by blast
qed (auto simp: grel_def list_all2_refl marks_refl)

lemma find_distinct_key:
  "distinct (map f xs) \<Longrightarrow> i < length xs \<Longrightarrow> find (\<lambda>s. f s = f (xs ! i)) xs = Some (xs ! i)"
proof (induction xs arbitrary: i)
  case Nil then show ?case by simp
next
  case (Cons x xs)
  then show ?case by (cases i) (auto simp: image_iff)
qed

lemma fresh_Nil: "fresh M T []"
  by (simp add: fresh_def getAllRecords_def)

lemma combineColumn_props:
  assumes "combineColumn col = (col', nc)"
    and "\<forall>r\<in>set (getAllRecords col). literalCount r \<le> M \<and> set (minterms r) \<subseteq> T"
  shows "fresh M T nc" and "distinct (map onesCount col) \<Longrightarrow> list_all2 (grel nc) col col'"
proof -
  let ?gs = "getSortedGroups col"
  obtain gs' nc1 where gl: "groupsLoop ?gs [] = (gs', nc1)" by (metis surj_pair)
  with assms(1) have eqs: "col' = writeBack gs' col" "nc = nc1"
    by (simp_all add: combineColumn_def)
  have recs: "\<forall>g\<in>set ?gs. \<forall>r\<in>set (records g). literalCount r \<le> M \<and> set (minterms r) \<subseteq> T"
    using assms(2) by (auto simp: getSortedGroups_def getAllRecords_def)
  have G: "fresh M T nc1 \<and> list_all2 (grel nc1) ?gs gs'"
    using groupsLoop_props[OF gl fresh_Nil recs] by simp
  then show "fresh M T nc" by (simp add: eqs)
  assume dist: "distinct (map onesCount col)"
  have keys: "map onesCount gs' = map onesCount ?gs"
    using G by (auto simp: list_all2_conv_all_nth grel_def intro: nth_equalityI)
  have dist': "distinct (map onesCount gs')"
    using dist keys by (simp add: getSortedGroups_def distinct_map)
  have len: "length gs' = length ?gs" using G by (auto dest: list_all2_lengthD)
  have "grel nc1 g (case find (\<lambda>s. onesCount s = onesCount g) gs' of Some s \<Rightarrow> s | None \<Rightarrow> g)"
    if "g \<in> set col" for g
  proof -
    from that have "g \<in> set ?gs" by (simp add: getSortedGroups_def)
    then obtain i where i: "i < length ?gs" "?gs ! i = g" by (auto simp: in_set_conv_nth)
    have r: "grel nc1 g (gs' ! i)" using G i by (auto simp: list_all2_conv_all_nth)
    then have "onesCount (gs' ! i) = onesCount g" by (simp add: grel_def)
    with find_distinct_key[OF dist', of i] i len
    have "find (\<lambda>s. onesCount s = onesCount g) gs' = Some (gs' ! i)" by simp
    with r show ?thesis by simp
  qed
  then show "list_all2 (grel nc) col col'"
    by (simp add: eqs writeBack_def list_all2_conv_all_nth)
qed

section \<open>Termination of the extraction loop\<close>

lemma foldr_max_ge: "x \<in> set xs \<Longrightarrow> x \<le> foldr max xs (0::nat)"
  by (induction xs) auto

lemma foldr_max_less: "0 < M \<Longrightarrow> \<forall>x\<in>set xs. x < M \<Longrightarrow> foldr max xs (0::nat) < M"
  by (induction xs) (auto simp: max_def)

lemma combineColumn_measure:
  assumes "combineColumn col = (col', nc)" "\<not> isEmpty col"
  shows "columnMeasure nc < columnMeasure col"
proof (cases "isEmpty nc")
  case True
  with assms(2) show ?thesis by (simp add: columnMeasure_def)
next
  case False
  have "\<forall>r\<in>set (getAllRecords col). literalCount r \<le> maxLiterals col \<and> set (minterms r) \<subseteq> UNIV"
    by (simp add: maxLiterals_def foldr_max_ge)
  from combineColumn_props(1)[OF assms(1) this]
  have fr: "fresh (maxLiterals col) UNIV nc" .
  from False obtain g where "g \<in> set nc" by (cases nc) (auto simp: isEmpty_def)
  with fr have "getAllRecords nc \<noteq> []" by (auto simp: fresh_def getAllRecords_def)
  then obtain c where "c \<in> set (getAllRecords nc)" by (cases "getAllRecords nc") auto
  with fr have pos: "0 < maxLiterals col" by (auto simp: fresh_def)
  have "\<forall>x\<in>set (map literalCount (getAllRecords nc)). x < maxLiterals col"
    using fr by (auto simp: fresh_def)
  with pos have "maxLiterals nc < maxLiterals col"
    unfolding maxLiterals_def[of nc] by (intro foldr_max_less) simp_all
  with False assms(2) show ?thesis by (simp add: columnMeasure_def)
qed

termination primeLoop
proof (relation "measure (\<lambda>(col, acc). columnMeasure col)")
  show "wf (measure (\<lambda>(col, acc). columnMeasure col))" by simp
next
  fix currentColumn :: Table1Column and allPrimeImplicants :: "Table1Record list" and x xa y
  assume "\<not> isEmpty currentColumn" "x = combineColumn currentColumn" "(xa, y) = x"
  then have "columnMeasure y < columnMeasure currentColumn"
    using combineColumn_measure[of currentColumn xa y] by simp
  then show "((y, allPrimeImplicants @ getUnusedRecords xa), currentColumn, allPrimeImplicants)
       \<in> measure (\<lambda>(col, acc). columnMeasure col)" by simp
qed

declare primeLoop.simps [simp del]

declare primeLoopBounded.simps [simp del]

section \<open>Termination of the residual cover\<close>

lemma setSelected_rows_length [simp]: "length (rows (setSelected t i)) = length (rows t)"
  by (simp add: setSelected_def)

lemma markOne_rows [simp]: "rows (markOne t m) = rows t"
  by (simp add: markOne_def)

lemma markCovered_rows [simp]: "rows (markCovered t row) = rows t"
proof -
  have "rows (foldl markOne t ms) = rows t" for ms
    by (induction ms arbitrary: t) simp_all
  then show ?thesis by (simp add: markCovered_def)
qed

lemma selectRow_rows: "rows (selectRow t i) = (rows t)[i := (rows t ! i)\<lparr>isSelected := True\<rparr>]"
  by (simp add: selectRow_def Let_def setSelected_def)

lemma sortCandidates_set: "set (sortCandidates t cs) = set cs" "length (sortCandidates t cs) = length cs"
  by (simp_all add: sortCandidates_def Let_def)

lemma filter_upt_update_less:
  assumes "i < n" "P i" "\<not> Q i" "\<forall>j. j \<noteq> i \<longrightarrow> Q j = P j"
  shows "length (filter Q [0..<n]) < length (filter P [0..<n])"
proof -
  have "length (filter Q [0..<n]) = card (set (filter Q [0..<n]))"
    by (rule distinct_card[symmetric]) simp
  moreover have "length (filter P [0..<n]) = card (set (filter P [0..<n]))"
    by (rule distinct_card[symmetric]) simp
  moreover have "set (filter Q [0..<n]) \<subset> set (filter P [0..<n])"
    using assms by auto
  ultimately show ?thesis by (simp add: psubset_card_mono)
qed

lemma selectRow_unselected_less:
  assumes "i \<in> set (getUnselectedRows t)"
  shows "length (getUnselectedRows (selectRow t i)) < length (getUnselectedRows t)"
proof -
  from assms have i: "i < length (rows t)" "\<not> isSelected (rows t ! i)"
    by (auto simp: getUnselectedRows_def)
  show ?thesis
    unfolding getUnselectedRows_def selectRow_rows
    using i by (auto intro!: filter_upt_update_less[of i] simp: nth_list_update)
qed

termination petrickLoop
proof (relation "measure (\<lambda>t. length (getUnselectedRows t))")
  show "wf (measure (\<lambda>t. length (getUnselectedRows t)))" by simp
next
  fix t :: Table2 and x
  assume "\<not> isFullyCovered t" "x = candidatesOf t" "length x \<noteq> 0"
  then have "sortCandidates t x ! 0 \<in> set (sortCandidates t x)"
    by (simp add: sortCandidates_set(2))
  then have "sortCandidates t x ! 0 \<in> set (getUnselectedRows t)"
    using \<open>x = candidatesOf t\<close> by (auto simp: sortCandidates_set(1) candidatesOf_def Let_def)
  then show "(selectRow t (sortCandidates t x ! 0), t) \<in> measure (\<lambda>t. length (getUnselectedRows t))"
    by (simp add: selectRow_unselected_less)
qed

declare petrickLoop.simps [simp del]

section \<open>Termination of the repeat-until loop of the specification\<close>

lemma update_unselected_less:
  assumes "i \<in> set (getUnselectedRows t)" "rows t' = (rows t)[i := (rows t ! i)\<lparr>isSelected := True\<rparr>]"
  shows "length (getUnselectedRows t') < length (getUnselectedRows t)"
proof -
  from assms(1) have i: "i < length (rows t)" "\<not> isSelected (rows t ! i)"
    by (auto simp: getUnselectedRows_def)
  show ?thesis
    unfolding getUnselectedRows_def assms(2)
    using i by (auto intro!: filter_upt_update_less[of i] simp: nth_list_update)
qed

lemma specStep_cases:
  "specStep t j = t \<or> length (getUnselectedRows (specStep t j)) < length (getUnselectedRows t)"
proof (cases "specUnique t j")
  case False
  then show ?thesis by (simp add: specStep_def)
next
  case True
  let ?cr = "coveringRows t (minterm (columns t ! j))"
  from True have "length ?cr = 1" by (simp add: specUnique_def)
  then have "hd ?cr \<in> set ?cr" by (cases ?cr) auto
  then have h: "hd ?cr \<in> set (getUnselectedRows t)"
    by (auto simp: coveringRows_def getUnselectedRows_def)
  have "rows (specStep t j) = (rows t)[hd ?cr := (rows t ! hd ?cr)\<lparr>isSelected := True\<rparr>]"
    using True by (simp add: specStep_def Let_def specMarkCovered_def setSelected_def)
  from update_unselected_less[OF h this] show ?thesis by blast
qed

lemma specStep_unique_less:
  "specUnique t j \<Longrightarrow> length (getUnselectedRows (specStep t j)) < length (getUnselectedRows t)"
proof -
  assume u: "specUnique t j"
  let ?cr = "coveringRows t (minterm (columns t ! j))"
  from u have "length ?cr = 1" by (simp add: specUnique_def)
  then have "hd ?cr \<in> set ?cr" by (cases ?cr) auto
  then have h: "hd ?cr \<in> set (getUnselectedRows t)"
    by (auto simp: coveringRows_def getUnselectedRows_def)
  have "rows (specStep t j) = (rows t)[hd ?cr := (rows t ! hd ?cr)\<lparr>isSelected := True\<rparr>]"
    using u by (simp add: specStep_def Let_def specMarkCovered_def setSelected_def)
  from update_unselected_less[OF h this] show ?thesis .
qed

lemma foldl_specStep_cases:
  "foldl specStep t js = t \<or> length (getUnselectedRows (foldl specStep t js)) < length (getUnselectedRows t)"
proof (induction js arbitrary: t)
  case Nil
  then show ?case by simp
next
  case (Cons j js)
  from specStep_cases[of t j] Cons[of "specStep t j"] show ?case
    by (elim disjE) auto
qed

lemma specSweep_less:
  assumes "j < length (columns t)" "specUnique t j"
  shows "length (getUnselectedRows (specSweep t)) < length (getUnselectedRows t)"
proof -
  let ?n = "length (columns t)"
  let ?u = "\<lambda>t. length (getUnselectedRows t)"
  have split: "[0..<?n] = [0..<j] @ j # [Suc j..<?n]"
    using assms(1) by (metis less_imp_le_nat upt_add_eq_append upt_conv_Cons le0 add_0 le_add_diff_inverse)
  let ?t1 = "foldl specStep t [0..<j]"
  have a: "?u (specStep ?t1 j) < ?u t"
  proof (cases "?t1 = t")
    case True
    then show ?thesis using specStep_unique_less[OF assms(2)] by simp
  next
    case False
    with foldl_specStep_cases[of t "[0..<j]"] have 1: "?u ?t1 < ?u t" by blast
    from specStep_cases[of ?t1 j] have "?u (specStep ?t1 j) \<le> ?u ?t1" by (elim disjE) simp_all
    with 1 show ?thesis by linarith
  qed
  have "?u (foldl specStep (specStep ?t1 j) [Suc j..<?n]) \<le> ?u (specStep ?t1 j)"
    using foldl_specStep_cases[of "specStep ?t1 j" "[Suc j..<?n]"] by (elim disjE) simp_all
  with a show ?thesis unfolding specSweep_def split by simp
qed

termination specEssential
proof (relation "measure (\<lambda>t. length (getUnselectedRows t))")
  show "wf (measure (\<lambda>t. length (getUnselectedRows t)))" by simp
next
  fix t :: Table2
  assume "list_ex (specUnique t) [0..<length (columns t)]"
  then obtain j where "j < length (columns t)" "specUnique t j"
    by (auto simp: list_ex_iff)
  then show "(specSweep t, t) \<in> measure (\<lambda>t. length (getUnselectedRows t))"
    by (simp add: specSweep_less)
qed

declare specEssential.simps [simp del]

section \<open>The bound on the number of passes\<close>

lemma primeLoopBounded_enough:
  "columnMeasure col \<le> n \<Longrightarrow> primeLoopBounded n col acc = Some (primeLoop col acc)"
proof (induction n arbitrary: col acc)
  case 0
  then have "isEmpty col" by (simp add: columnMeasure_def split: if_splits)
  then show ?case by (simp add: primeLoopBounded.simps primeLoop.simps)
next
  case (Suc n)
  show ?case
  proof (cases "isEmpty col")
    case True
    then show ?thesis by (simp add: primeLoopBounded.simps primeLoop.simps)
  next
    case False
    obtain c' nc where cc: "combineColumn col = (c', nc)" by (metis surj_pair)
    from combineColumn_measure[OF cc False] Suc.prems have "columnMeasure nc \<le> n" by simp
    from Suc.IH[OF this] show ?thesis
      using False cc by (simp add: primeLoopBounded.simps[of "Suc n" col] primeLoop.simps[of col])
  qed
qed

lemma foldr_max_le: "\<forall>x\<in>set xs. x \<le> M \<Longrightarrow> foldr max xs (0::nat) \<le> M"
  by (induction xs) auto

lemma getAllRecords_foldl_addRecord:
  "set (getAllRecords (foldl (\<lambda>column term. addRecord column (f term)) c0 ts))
     \<subseteq> set (getAllRecords c0) \<union> f ` set ts"
proof (induction ts arbitrary: c0)
  case Nil then show ?case by simp
next
  case (Cons t ts)
  have "set (getAllRecords (addRecord c0 (f t))) \<subseteq> insert (f t) (set (getAllRecords c0))"
    using getAllRecords_addToGroups[of c0 "countOnes (f t)" "f t"] by (simp add: addRecord_def)
  with Cons[of "addRecord c0 (f t)"] show ?case by auto
qed

lemma firstColumn_records:
  "r \<in> set (getAllRecords (firstColumn ms dcs v)) \<Longrightarrow> \<exists>t\<in>set (ms @ dcs). r = fromMinterm t v"
  using getAllRecords_foldl_addRecord[of "\<lambda>t. fromMinterm t v" "[]" "uniq (ms @ dcs)"]
  by (auto simp: firstColumn_def getAllRecords_def)

lemma literalCount_fromMinterm: "literalCount (fromMinterm t v) \<le> v"
proof -
  have "length (filter (\<lambda>b. b \<noteq> DontCare) (bits (fromMinterm t v))) \<le> length (bits (fromMinterm t v))"
    by (rule length_filter_le)
  then show ?thesis by (simp add: literalCount_def fromMinterm_def Table1Record_new_def)
qed

lemma columnMeasure_firstColumn: "columnMeasure (firstColumn ms dcs v) \<le> v + 1"
proof -
  have "\<forall>x\<in>set (map literalCount (getAllRecords (firstColumn ms dcs v))). x \<le> v"
    using firstColumn_records literalCount_fromMinterm by fastforce
  then have "maxLiterals (firstColumn ms dcs v) \<le> v"
    unfolding maxLiterals_def by (rule foldr_max_le)
  then show ?thesis by (simp add: columnMeasure_def)
qed

section \<open>Every term is covered by a prime implicant\<close>

lemma fresh_columnOK: "fresh M T nc \<Longrightarrow> columnOK T nc"
  by (simp add: fresh_def columnOK_def)

lemma grel_records_forward:
  assumes "list_all2 (grel nc) col col'" "r \<in> set (getAllRecords col)"
  shows "\<exists>r'\<in>set (getAllRecords col'). marks nc r r'"
proof -
  from assms(2) obtain g where g: "g \<in> set col" "r \<in> set (records g)"
    by (auto simp: getAllRecords_def)
  then obtain i where i: "i < length col" "col ! i = g" by (auto simp: in_set_conv_nth)
  with assms(1) have gi: "grel nc g (col' ! i)" "i < length col'"
    by (auto simp: list_all2_conv_all_nth)
  then have la: "list_all2 (marks nc) (records g) (records (col' ! i))" by (simp add: grel_def)
  from g(2) obtain j where j: "j < length (records g)" "records g ! j = r"
    by (auto simp: in_set_conv_nth)
  with la have "marks nc r (records (col' ! i) ! j)" "j < length (records (col' ! i))"
    by (auto simp: list_all2_conv_all_nth)
  moreover have "records (col' ! i) ! j \<in> set (getAllRecords col')"
    unfolding getAllRecords_def using gi(2) calculation(2) by (auto intro!: bexI[of _ "col' ! i"])
  ultimately show ?thesis by blast
qed

lemma grel_records_backward:
  assumes "list_all2 (grel nc) col col'" "r' \<in> set (getAllRecords col')"
  shows "\<exists>r\<in>set (getAllRecords col). marks nc r r'"
proof -
  from assms(2) obtain g' where g: "g' \<in> set col'" "r' \<in> set (records g')"
    by (auto simp: getAllRecords_def)
  then obtain i where i: "i < length col'" "col' ! i = g'" by (auto simp: in_set_conv_nth)
  with assms(1) have gi: "grel nc (col ! i) g'" "i < length col"
    by (auto simp: list_all2_conv_all_nth)
  then have la: "list_all2 (marks nc) (records (col ! i)) (records g')" by (simp add: grel_def)
  from g(2) obtain j where j: "j < length (records g')" "records g' ! j = r'"
    by (auto simp: in_set_conv_nth)
  with la have "marks nc (records (col ! i) ! j) r'" "j < length (records (col ! i))"
    by (auto simp: list_all2_conv_all_nth)
  moreover have "records (col ! i) ! j \<in> set (getAllRecords col)"
    unfolding getAllRecords_def using gi(2) calculation(2) by (auto intro!: bexI[of _ "col ! i"])
  ultimately show ?thesis by blast
qed

lemma primeLoop_covers:
  "columnOK T col \<Longrightarrow>
     (\<forall>r\<in>set (getAllRecords col). \<exists>p\<in>set (primeLoop col acc). set (minterms r) \<subseteq> set (minterms p))
     \<and> set acc \<subseteq> set (primeLoop col acc)
     \<and> (\<forall>p\<in>set (primeLoop col acc). p \<in> set acc \<or> set (minterms p) \<subseteq> T)"
proof (induction col acc rule: primeLoop.induct)
  case (1 col acc)
  show ?case
  proof (cases "isEmpty col")
    case True
    then show ?thesis by (simp add: primeLoop.simps isEmpty_def getAllRecords_def)
  next
    case False
    obtain col' nc where cc: "combineColumn col = (col', nc)" by (metis surj_pair)
    let ?acc' = "acc @ getUnusedRecords col'"
    have res: "primeLoop col acc = primeLoop nc ?acc'"
      using False cc by (simp add: primeLoop.simps[of col])
    have pre: "\<forall>r\<in>set (getAllRecords col). literalCount r \<le> maxLiterals col \<and> set (minterms r) \<subseteq> T"
      using "1.prems" by (simp add: maxLiterals_def foldr_max_ge columnOK_def)
    have fr: "fresh (maxLiterals col) T nc" by (rule combineColumn_props(1)[OF cc pre])
    have rel: "list_all2 (grel nc) col col'"
      using combineColumn_props(2)[OF cc pre] "1.prems" by (simp add: columnOK_def)
    have IH: "(\<forall>r\<in>set (getAllRecords nc). \<exists>p\<in>set (primeLoop nc ?acc'). set (minterms r) \<subseteq> set (minterms p))
     \<and> set ?acc' \<subseteq> set (primeLoop nc ?acc')
     \<and> (\<forall>p\<in>set (primeLoop nc ?acc'). p \<in> set ?acc' \<or> set (minterms p) \<subseteq> T)"
      using "1.IH"[OF False cc[symmetric] refl fresh_columnOK[OF fr]] .
    have a: "\<exists>p\<in>set (primeLoop nc ?acc'). set (minterms r) \<subseteq> set (minterms p)"
      if r: "r \<in> set (getAllRecords col)" for r
    proof -
      from grel_records_forward[OF rel r] obtain r' where
        r': "r' \<in> set (getAllRecords col')" "marks nc r r'" by blast
      show ?thesis
      proof (cases "isUsed r'")
        case True
        moreover have "\<not> isUsed r" using "1.prems" r by (simp add: columnOK_def)
        ultimately have "covered nc r" using r'(2) by (simp add: marks_def)
        then obtain c where c: "c \<in> set (getAllRecords nc)" "set (minterms r) \<subseteq> set (minterms c)"
          by (auto simp: covered_def)
        with IH obtain p where "p \<in> set (primeLoop nc ?acc')" "set (minterms c) \<subseteq> set (minterms p)"
          by blast
        with c(2) show ?thesis by blast
      next
        case False
        with r'(1) have "r' \<in> set ?acc'" by (simp add: getUnusedRecords_def getAllRecords_def)
        with IH have "r' \<in> set (primeLoop nc ?acc')" by blast
        moreover have "minterms r' = minterms r" using r'(2) by (simp add: marks_def)
        ultimately show ?thesis by (intro bexI[of _ r']) simp_all
      qed
    qed
    have b: "set acc \<subseteq> set (primeLoop nc ?acc')" using IH by auto
    have c: "p \<in> set acc \<or> set (minterms p) \<subseteq> T" if p: "p \<in> set (primeLoop nc ?acc')" for p
    proof -
      from IH p have "p \<in> set acc \<or> p \<in> set (getUnusedRecords col') \<or> set (minterms p) \<subseteq> T"
        by auto
      moreover have "set (minterms p) \<subseteq> T" if "p \<in> set (getUnusedRecords col')"
      proof -
        from that have "p \<in> set (getAllRecords col')"
          by (simp add: getUnusedRecords_def getAllRecords_def)
        from grel_records_backward[OF rel this] obtain r where
          "r \<in> set (getAllRecords col)" "marks nc r p" by blast
        then show ?thesis using pre by (auto simp: marks_def)
      qed
      ultimately show ?thesis by blast
    qed
    show ?thesis unfolding res using a b c by blast
  qed
qed

lemma dedupLoop_props:
  assumes "\<forall>k\<in>set seen. \<exists>q\<in>set unique. getKey q = k"
  shows "set unique \<subseteq> set (dedupLoop xs seen unique)
    \<and> set (dedupLoop xs seen unique) \<subseteq> set unique \<union> set xs
    \<and> (\<forall>x\<in>set xs. \<exists>q\<in>set (dedupLoop xs seen unique). getKey q = getKey x)"
  using assms
proof (induction xs arbitrary: seen unique)
  case Nil
  then show ?case by simp
next
  case (Cons x xs)
  show ?case
  proof (cases "getKey x \<in> set seen")
    case True
    then obtain q where q: "q \<in> set unique" "getKey q = getKey x"
      using Cons.prems by auto
    have IH: "set unique \<subseteq> set (dedupLoop xs seen unique)
      \<and> set (dedupLoop xs seen unique) \<subseteq> set unique \<union> set xs
      \<and> (\<forall>x\<in>set xs. \<exists>q\<in>set (dedupLoop xs seen unique). getKey q = getKey x)"
      using Cons.IH[OF Cons.prems] .
    have "dedupLoop (x # xs) seen unique = dedupLoop xs seen unique" using True by simp
    moreover have "\<exists>q\<in>set (dedupLoop xs seen unique). getKey q = getKey x" using q IH by blast
    ultimately show ?thesis using IH by auto
  next
    case False
    let ?s = "seen @ [getKey x]" and ?u = "unique @ [x]"
    have pre: "\<forall>k\<in>set ?s. \<exists>q\<in>set ?u. getKey q = k" using Cons.prems by auto
    have IH: "set ?u \<subseteq> set (dedupLoop xs ?s ?u)
      \<and> set (dedupLoop xs ?s ?u) \<subseteq> set ?u \<union> set xs
      \<and> (\<forall>x\<in>set xs. \<exists>q\<in>set (dedupLoop xs ?s ?u). getKey q = getKey x)"
      using Cons.IH[OF pre] .
    have "dedupLoop (x # xs) seen unique = dedupLoop xs ?s ?u" using False by simp
    moreover have "\<exists>q\<in>set (dedupLoop xs ?s ?u). getKey q = getKey x" using IH by auto
    ultimately show ?thesis using IH by auto
  qed
qed

lemma firstColumn_fold_props:
  assumes "columnOK T c0" "set ts \<subseteq> T"
  shows "columnOK T (foldl (\<lambda>column term. addRecord column (fromMinterm term v)) c0 ts)
    \<and> set (getAllRecords c0) \<subseteq> set (getAllRecords (foldl (\<lambda>column term. addRecord column (fromMinterm term v)) c0 ts))
    \<and> (\<forall>t\<in>set ts. \<exists>r\<in>set (getAllRecords (foldl (\<lambda>column term. addRecord column (fromMinterm term v)) c0 ts)).
           t \<in> set (minterms r))"
  using assms
proof (induction ts arbitrary: c0)
  case Nil
  then show ?case by simp
next
  case (Cons t ts)
  let ?r = "fromMinterm t v"
  let ?c1 = "addRecord c0 ?r"
  let ?F = "foldl (\<lambda>column term. addRecord column (fromMinterm term v))"
  have rprops: "\<not> isUsed ?r" "minterms ?r = [t]"
    by (simp_all add: fromMinterm_def Table1Record_new_def)
  have sub: "set (getAllRecords ?c1) \<subseteq> insert ?r (set (getAllRecords c0))"
    using getAllRecords_addToGroups[of c0 "countOnes ?r" ?r] by (simp add: addRecord_def)
  have ok1: "columnOK T ?c1"
    unfolding columnOK_def
  proof (intro conjI ballI)
    show "distinct (map onesCount ?c1)"
      using Cons.prems(1) by (simp add: columnOK_def addRecord_def addToGroups_distinct)
  next
    fix x assume "x \<in> set (getAllRecords ?c1)"
    with sub have "x = ?r \<or> x \<in> set (getAllRecords c0)" by blast
    then show "\<not> isUsed x" "set (minterms x) \<subseteq> T"
      using Cons.prems rprops by (auto simp: columnOK_def)
  qed
  have IH: "columnOK T (?F ?c1 ts)
    \<and> set (getAllRecords ?c1) \<subseteq> set (getAllRecords (?F ?c1 ts))
    \<and> (\<forall>t\<in>set ts. \<exists>r\<in>set (getAllRecords (?F ?c1 ts)). t \<in> set (minterms r))"
    using Cons.IH[OF ok1] Cons.prems(2) by simp
  obtain c' where c': "c' \<in> set (getAllRecords ?c1)" "minterms c' = minterms ?r"
    using addRecord_has[of c0 ?r] by blast
  then have "c' \<in> set (getAllRecords (?F ?c1 ts))" "t \<in> set (minterms c')"
    using IH rprops by auto
  then have t: "\<exists>r\<in>set (getAllRecords (?F ?c1 ts)). t \<in> set (minterms r)" by blast
  have "set (getAllRecords c0) \<subseteq> set (getAllRecords (?F ?c1 ts))"
    using addRecord_mono[of c0 ?r] IH by blast
  with IH t show ?case by simp
qed

lemma columnOK_Nil: "columnOK T []"
  by (simp add: columnOK_def getAllRecords_def)

lemma findPrimeImplicants_covers:
  "(\<forall>t\<in>set (ms @ dcs). \<exists>p\<in>set (findPrimeImplicants ms dcs v). t \<in> set (minterms p))
   \<and> (\<forall>p\<in>set (findPrimeImplicants ms dcs v). set (minterms p) \<subseteq> set (ms @ dcs))"
proof -
  let ?T = "set (ms @ dcs)"
  let ?c = "firstColumn ms dcs v"
  let ?ps = "primeLoop ?c []"
  have fc: "columnOK ?T ?c \<and> (\<forall>t\<in>set (uniq (ms @ dcs)). \<exists>r\<in>set (getAllRecords ?c). t \<in> set (minterms r))"
    unfolding firstColumn_def
    using firstColumn_fold_props[OF columnOK_Nil, of "uniq (ms @ dcs)" ?T v] by simp
  have pl: "(\<forall>r\<in>set (getAllRecords ?c). \<exists>p\<in>set ?ps. set (minterms r) \<subseteq> set (minterms p))
     \<and> (\<forall>p\<in>set ?ps. set (minterms p) \<subseteq> ?T)"
    using primeLoop_covers[of ?T ?c "[]"] fc by simp
  have dd: "set (deduplicatePrimeImplicants ?ps) \<subseteq> set ?ps
    \<and> (\<forall>x\<in>set ?ps. \<exists>q\<in>set (deduplicatePrimeImplicants ?ps). getKey q = getKey x)"
    unfolding deduplicatePrimeImplicants_def
    using dedupLoop_props[of "[]" "[]" ?ps] by simp
  have 1: "\<exists>p\<in>set (findPrimeImplicants ms dcs v). t \<in> set (minterms p)" if "t \<in> ?T" for t
  proof -
    from that fc obtain r where r: "r \<in> set (getAllRecords ?c)" "t \<in> set (minterms r)" by auto
    with pl obtain p where p: "p \<in> set ?ps" "set (minterms r) \<subseteq> set (minterms p)" by blast
    with dd obtain q where q: "q \<in> set (deduplicatePrimeImplicants ?ps)" "getKey q = getKey p" by blast
    then have "t \<in> set (minterms q)" using r(2) p(2) by (auto simp: getKey_def)
    with q(1) show ?thesis by (auto simp: findPrimeImplicants_def)
  qed
  have 2: "set (minterms p) \<subseteq> ?T" if "p \<in> set (findPrimeImplicants ms dcs v)" for p
    using that dd pl by (auto simp: findPrimeImplicants_def)
  from 1 2 show ?thesis by blast
qed

section \<open>Invariants of the coverage table\<close>

lemma nth_list_update_gen: "xs[i := x] ! j = (if i = j \<and> i < length xs then x else xs ! j)"
  by (cases "i < length xs") (simp_all add: nth_list_update list_update_beyond)

lemma sameRows_refl: "sameRows t t"
  by (simp add: sameRows_def)

lemma sameRows_trans: "sameRows t t' \<Longrightarrow> sameRows t' t'' \<Longrightarrow> sameRows t t''"
  by (simp add: sameRows_def)

lemma rowsCover_sameRows: "sameRows t t' \<Longrightarrow> rowsCover ms t \<Longrightarrow> rowsCover ms t'"
  unfolding sameRows_def rowsCover_def by metis

lemma foldl_markOne_uncovered:
  "uncoveredMinterms (foldl markOne t ms) = filter (\<lambda>m. m \<notin> set ms) (uncoveredMinterms t)"
proof (induction ms arbitrary: t)
  case Nil then show ?case by simp
next
  case (Cons m ms)
  have "removeAll m xs = filter (\<lambda>x. x \<noteq> m) xs" for xs :: "int list"
    by (induction xs) auto
  then have "uncoveredMinterms (markOne t m) = filter (\<lambda>x. x \<noteq> m) (uncoveredMinterms t)"
    by (simp add: markOne_def)
  then show ?case by (simp add: Cons conj_commute)
qed

lemma selectRow_uncovered:
  "i < length (rows t) \<Longrightarrow> uncoveredMinterms (selectRow t i) =
     filter (\<lambda>m. m \<notin> set (coverage (rows t ! i))) (uncoveredMinterms t)"
  by (simp add: selectRow_def Let_def markCovered_def getCoveredMinterms_def
      foldl_markOne_uncovered setSelected_def)

lemma selectRow_sameRows: "sameRows t (selectRow t i)"
  by (simp add: sameRows_def selectRow_rows nth_list_update_gen)

lemma selectRow_selected:
  "j < length (rows t) \<Longrightarrow>
     isSelected (rows (selectRow t i) ! j) = (j = i \<or> isSelected (rows t ! j))"
  by (auto simp: selectRow_rows nth_list_update_gen)

lemma selectRow_tableInv:
  assumes "tableInv ms t" "i < length (rows t)"
  shows "tableInv ms (selectRow t i)"
proof -
  let ?t = "selectRow t i"
  have len: "length (rows ?t) = length (rows t)" by (simp add: selectRow_rows)
  have cov: "coverage (rows ?t ! j) = coverage (rows t ! j)" if "j < length (rows t)" for j
    using that by (simp add: selectRow_rows nth_list_update_gen)
  have unc: "set (uncoveredMinterms ?t) = set (uncoveredMinterms t) - set (coverage (rows t ! i))"
    using assms(2) by (auto simp: selectRow_uncovered)
  have 1: "set (coverage (rows ?t ! j)) \<inter> set (uncoveredMinterms ?t) = {}"
    if "j < length (rows ?t)" "isSelected (rows ?t ! j)" for j
  proof (cases "j = i")
    case True
    then show ?thesis using that(1) len cov[of j] unc by auto
  next
    case False
    with that len have "isSelected (rows t ! j)" by (simp add: selectRow_selected)
    with assms(1) that(1) len have "set (coverage (rows t ! j)) \<inter> set (uncoveredMinterms t) = {}"
      by (simp add: tableInv_def)
    then show ?thesis using that(1) len cov[of j] unc by auto
  qed
  have 2: "m \<in> set (uncoveredMinterms ?t)
      \<or> (\<exists>j<length (rows ?t). isSelected (rows ?t ! j) \<and> m \<in> set (coverage (rows ?t ! j)))"
    if m: "m \<in> set ms" for m
  proof (cases "m \<in> set (coverage (rows t ! i))")
    case True
    then have "isSelected (rows ?t ! i) \<and> m \<in> set (coverage (rows ?t ! i))"
      using assms(2) by (simp add: selectRow_selected cov)
    then show ?thesis using assms(2) len by auto
  next
    case False
    from assms(1) m have "m \<in> set (uncoveredMinterms t)
      \<or> (\<exists>j<length (rows t). isSelected (rows t ! j) \<and> m \<in> set (coverage (rows t ! j)))"
      by (simp add: tableInv_def)
    then show ?thesis
    proof
      assume "m \<in> set (uncoveredMinterms t)"
      with False unc show ?thesis by simp
    next
      assume "\<exists>j<length (rows t). isSelected (rows t ! j) \<and> m \<in> set (coverage (rows t ! j))"
      then obtain j where "j < length (rows t)" "isSelected (rows t ! j)" "m \<in> set (coverage (rows t ! j))"
        by blast
      then have "j < length (rows ?t) \<and> isSelected (rows ?t ! j) \<and> m \<in> set (coverage (rows ?t ! j))"
        by (simp add: len selectRow_selected cov)
      then show ?thesis by blast
    qed
  qed
  have 3: "set (uncoveredMinterms ?t) \<subseteq> set ms"
    using assms(1) unc by (auto simp: tableInv_def)
  from 1 2 3 show ?thesis unfolding tableInv_def by blast
qed

lemma essentialStep_cases:
  "snd (essentialStep (e, t) j) = t
   \<or> (\<exists>i<length (rows t). snd (essentialStep (e, t) j) = selectRow t i)"
proof -
  have "i < length (rows t)" if "coveringRows t m ! 0 = i" "length (coveringRows t m) = 1" for i m
  proof -
    from that have "i \<in> set (coveringRows t m)" by (metis nth_mem zero_less_one)
    then show ?thesis by (simp add: coveringRows_def)
  qed
  then show ?thesis
    by (auto simp: essentialStep_def Let_def selectRow_def)
qed

lemma essentialPass_Suc: "essentialPass t (Suc k) = essentialStep (essentialPass t k) k"
  by (simp add: essentialPass_def)

lemma essentialPass_inv:
  "tableInv ms t \<Longrightarrow> tableInv ms (snd (essentialPass t k)) \<and> sameRows t (snd (essentialPass t k))"
proof (induction k)
  case 0
  then show ?case by (simp add: essentialPass_def sameRows_refl)
next
  case (Suc k)
  obtain e t1 where p: "essentialPass t k = (e, t1)" by (metis surj_pair)
  with Suc have IH: "tableInv ms t1" "sameRows t t1" by simp_all
  from essentialStep_cases[of e t1 k]
  show ?case
  proof
    assume "snd (essentialStep (e, t1) k) = t1"
    with IH show ?thesis by (simp add: essentialPass_Suc p)
  next
    assume "\<exists>i<length (rows t1). snd (essentialStep (e, t1) k) = selectRow t1 i"
    then obtain i where i: "i < length (rows t1)" "snd (essentialStep (e, t1) k) = selectRow t1 i"
      by blast
    have "tableInv ms (selectRow t1 i)" by (rule selectRow_tableInv[OF IH(1) i(1)])
    moreover have "sameRows t (selectRow t1 i)"
      by (rule sameRows_trans[OF IH(2) selectRow_sameRows])
    ultimately show ?thesis by (simp add: essentialPass_Suc p i(2))
  qed
qed

lemma candidates_nonempty:
  assumes "tableInv ms t" "rowsCover ms t" "\<not> isFullyCovered t"
  shows "candidatesOf t \<noteq> []"
proof -
  from assms(3) obtain m where m: "m \<in> set (uncoveredMinterms t)"
    by (cases "uncoveredMinterms t") (auto simp: isFullyCovered_def)
  with assms(1) have "m \<in> set ms" by (auto simp: tableInv_def)
  with assms(2) obtain i where i: "i < length (rows t)" "m \<in> set (coverage (rows t ! i))"
    by (auto simp: rowsCover_def)
  have "\<not> isSelected (rows t ! i)"
  proof
    assume "isSelected (rows t ! i)"
    with assms(1) i(1) have "set (coverage (rows t ! i)) \<inter> set (uncoveredMinterms t) = {}"
      by (simp add: tableInv_def)
    with m i(2) show False by blast
  qed
  with i(1) have un: "i \<in> set (getUnselectedRows t)" by (simp add: getUnselectedRows_def)
  have "m \<in> set (filter (\<lambda>m. m \<in> set (uncoveredMinterms t)) (coverage (rows t ! i)))"
    using m i(2) by simp
  then have "countCoverage (rows t ! i) (uncoveredMinterms t) > 0"
    unfolding countCoverage_def by (metis length_pos_if_in_set)
  with un have "i \<in> set (candidatesOf t)"
    by (simp add: candidatesOf_def Let_def getUncoveredMinterms_def)
  then show ?thesis by auto
qed

lemma petrickLoop_inv:
  "tableInv ms t \<Longrightarrow> rowsCover ms t \<Longrightarrow>
     tableInv ms (petrickLoop t) \<and> sameRows t (petrickLoop t) \<and> isFullyCovered (petrickLoop t)"
proof (induction t rule: petrickLoop.induct)
  case (1 t)
  show ?case
  proof (cases "isFullyCovered t")
    case True
    then show ?thesis using "1.prems" by (simp add: petrickLoop.simps[of t] sameRows_refl)
  next
    case False
    let ?c = "candidatesOf t"
    let ?i = "sortCandidates t ?c ! 0"
    have ne: "length ?c \<noteq> 0" using candidates_nonempty[OF "1.prems" False] by simp
    then have "?i \<in> set (sortCandidates t ?c)" by (simp add: sortCandidates_set(2))
    then have "?i \<in> set (getUnselectedRows t)"
      by (auto simp: sortCandidates_set(1) candidatesOf_def Let_def)
    then have i: "?i < length (rows t)" by (simp add: getUnselectedRows_def)
    have res: "petrickLoop t = petrickLoop (selectRow t ?i)"
      using False ne by (simp add: petrickLoop.simps[of t] Let_def)
    have inv': "tableInv ms (selectRow t ?i)" by (rule selectRow_tableInv[OF "1.prems"(1) i])
    have rc': "rowsCover ms (selectRow t ?i)"
      by (rule rowsCover_sameRows[OF selectRow_sameRows "1.prems"(2)])
    from "1.IH"[OF False refl ne inv' rc']
    have IH: "tableInv ms (petrickLoop (selectRow t ?i))"
      "sameRows (selectRow t ?i) (petrickLoop (selectRow t ?i))"
      "isFullyCovered (petrickLoop (selectRow t ?i))" by blast+
    have "sameRows t (petrickLoop (selectRow t ?i))"
      by (rule sameRows_trans[OF selectRow_sameRows IH(2)])
    with IH show ?thesis unfolding res by blast
  qed
qed

lemma applyPetricksMethod_inv:
  assumes "tableInv ms t" "rowsCover ms t"
  shows "tableInv ms (applyPetricksMethod t) \<and> sameRows t (applyPetricksMethod t)
     \<and> isFullyCovered (applyPetricksMethod t)"
proof (cases "isFullyCovered t")
  case True
  then have "applyPetricksMethod t = t"
    by (simp add: applyPetricksMethod_def isFullyCovered_def getUncoveredMinterms_def)
  with True assms show ?thesis by (simp add: sameRows_refl)
next
  case False
  have ne: "candidatesOf t \<noteq> []" by (rule candidates_nonempty[OF assms False])
  then have "getUnselectedRows t \<noteq> []" by (auto simp: candidatesOf_def Let_def)
  with ne False have "applyPetricksMethod t = petrickLoop t"
    by (simp add: applyPetricksMethod_def Let_def candidatesOf_def isFullyCovered_def
        getUncoveredMinterms_def)
  with petrickLoop_inv[OF assms] show ?thesis by simp
qed

lemma Table2_new_inv: "tableInv ms (Table2_new pis ms)"
  by (simp add: tableInv_def Table2_new_def Table2Row_new_def)

lemma Table2_new_rowsCover:
  assumes "\<forall>m\<in>set ms. \<exists>p\<in>set pis. m \<in> set (minterms p)"
  shows "rowsCover ms (Table2_new pis ms)"
  unfolding rowsCover_def
proof
  fix m assume "m \<in> set ms"
  with assms obtain p where "p \<in> set pis" "m \<in> set (minterms p)" by blast
  then obtain i where "i < length pis" "pis ! i = p" by (auto simp: in_set_conv_nth)
  with \<open>m \<in> set (minterms p)\<close>
  show "\<exists>i<length (rows (Table2_new pis ms)). m \<in> set (coverage (rows (Table2_new pis ms) ! i))"
    by (auto simp: Table2_new_def Table2Row_new_def intro!: exI[of _ i])
qed

lemma finalTable_props:
  assumes "\<forall>m\<in>set ms. \<exists>p\<in>set pis. m \<in> set (minterms p)"
  shows "tableInv ms (finalTable pis ms) \<and> sameRows (Table2_new pis ms) (finalTable pis ms)
     \<and> isFullyCovered (finalTable pis ms)"
proof -
  let ?t0 = "Table2_new pis ms"
  let ?t1 = "snd (findEssentialPrimeImplicants ?t0)"
  have e: "tableInv ms ?t1" "sameRows ?t0 ?t1"
    using essentialPass_inv[OF Table2_new_inv, of ms pis "length (columns ?t0)"]
    by (simp_all add: findEssentialPrimeImplicants_def)
  have rc: "rowsCover ms ?t1"
    by (rule rowsCover_sameRows[OF e(2) Table2_new_rowsCover[OF assms]])
  show ?thesis
  proof (cases "isFullyCovered ?t1")
    case True
    then have "finalTable pis ms = ?t1" by (simp add: finalTable_def Let_def)
    with e True show ?thesis by simp
  next
    case False
    then have f: "finalTable pis ms = applyPetricksMethod ?t1" by (simp add: finalTable_def Let_def)
    from applyPetricksMethod_inv[OF e(1) rc] sameRows_trans[OF e(2)]
    show ?thesis unfolding f by blast
  qed
qed

section \<open>The result of the solver\<close>

lemma shiftLeftOne_small: "v \<le> 30 \<Longrightarrow> shiftLeftOne v = 2 ^ v"
proof -
  assume v: "v \<le> 30"
  then have m: "v mod 32 = v" by simp
  have lt: "(2::int) ^ v < 2 ^ 31" using v power_strict_increasing[of v 31 "2::int"] by linarith
  have "push_bit v (1 :: 32 word) = word_of_int (2 ^ v)"
    by (simp add: push_bit_eq_mult)
  then have "sint (push_bit v (1 :: 32 word)) = signed_take_bit 31 ((2::int) ^ v)"
    by (simp only: sint_sbintrunc') simp
  also have "\<dots> = 2 ^ v"
  proof (rule signed_take_bit_int_eq_self)
    have "(0::int) \<le> 2 ^ v" by simp
    moreover have "- ((2::int) ^ 31) \<le> 0" by simp
    ultimately show "- (2 ^ 31) \<le> (2::int) ^ v" by (rule order_trans[rotated])
    show "(2::int) ^ v < 2 ^ 31" by (rule lt)
  qed
  finally show ?thesis unfolding shiftLeftOne_def m .
qed

lemma maxPossibleTerm_small: "v \<le> 30 \<Longrightarrow> maxPossibleTerm v = 2 ^ v - 1"
  by (simp add: maxPossibleTerm_def shiftLeftOne_small)

lemma find_None_iff2: "find P xs = None \<longleftrightarrow> (\<forall>x\<in>set xs. \<not> P x)"
  by (induction xs) auto

lemma map_nth_filter_nths:
  "map ((!) xs) (filter P [0..<length xs]) = nths xs {i. P i}"
proof (induction xs rule: rev_induct)
  case Nil
  then show ?case by simp
next
  case (snoc x xs)
  have 1: "map ((!) (xs @ [x])) (filter P [0..<length xs]) = map ((!) xs) (filter P [0..<length xs])"
    by (rule map_cong) (auto simp: nth_append)
  have 2: "map ((!) (xs @ [x])) (filter P [length xs]) = nths [x] {j. j + length xs \<in> {i. P i}}"
    by simp
  have "map ((!) (xs @ [x])) (filter P [0..<length (xs @ [x])])
      = map ((!) (xs @ [x])) (filter P [0..<length xs]) @ map ((!) (xs @ [x])) (filter P [length xs])"
    by simp
  also have "\<dots> = nths xs {i. P i} @ nths [x] {j. j + length xs \<in> {i. P i}}"
    unfolding 1 2 snoc ..
  also have "\<dots> = nths (xs @ [x]) {i. P i}" by (simp only: nths_append)
  finally show ?case .
qed

lemma subseq_map_nth_filter: "subseq (map ((!) xs) (filter P [0..<length xs])) xs"
  unfolding map_nth_filter_nths subseq_conv_nths by blast

lemma selectPrimeImplicants_alt:
  assumes "sameRows (Table2_new pis ms) (finalTable pis ms)"
  shows "selectPrimeImplicants pis ms =
     map ((!) pis) (filter (\<lambda>i. isSelected (rows (finalTable pis ms) ! i)) [0..<length pis])"
proof -
  let ?t = "finalTable pis ms"
  have len: "length (rows ?t) = length pis"
    using assms by (simp add: sameRows_def Table2_new_def)
  have rr: "rowRecord (rows ?t ! i) = pis ! i" if "i < length pis" for i
    using assms that by (simp add: sameRows_def Table2_new_def Table2Row_new_def)
  show ?thesis
    unfolding selectPrimeImplicants_def Let_def getSelectedRows_def len
    by (rule map_cong) (auto simp: rr)
qed

lemma essentialPass_sameRows: "sameRows t (snd (essentialPass t k))"
proof (induction k)
  case 0
  then show ?case by (simp add: essentialPass_def sameRows_refl)
next
  case (Suc k)
  obtain e t1 where p: "essentialPass t k = (e, t1)" by (metis surj_pair)
  with Suc have IH: "sameRows t t1" by simp
  from essentialStep_cases[of e t1 k]
  show ?case
  proof
    assume "snd (essentialStep (e, t1) k) = t1"
    with IH show ?thesis by (simp add: essentialPass_Suc p)
  next
    assume "\<exists>i<length (rows t1). snd (essentialStep (e, t1) k) = selectRow t1 i"
    then obtain i where i: "snd (essentialStep (e, t1) k) = selectRow t1 i" by blast
    have "sameRows t (selectRow t1 i)" by (rule sameRows_trans[OF IH selectRow_sameRows])
    then show ?thesis by (simp add: essentialPass_Suc p i)
  qed
qed

lemma petrickLoop_sameRows: "sameRows t (petrickLoop t)"
proof (induction t rule: petrickLoop.induct)
  case (1 t)
  show ?case
  proof (cases "isFullyCovered t \<or> length (candidatesOf t) = 0")
    case True
    then have "petrickLoop t = t" by (auto simp: petrickLoop.simps[of t])
    then show ?thesis by (simp add: sameRows_refl)
  next
    case False
    let ?i = "sortCandidates t (candidatesOf t) ! 0"
    from False have res: "petrickLoop t = petrickLoop (selectRow t ?i)"
      by (simp add: petrickLoop.simps[of t] Let_def)
    from False have "sameRows (selectRow t ?i) (petrickLoop (selectRow t ?i))"
      by (intro "1.IH") simp_all
    then show ?thesis unfolding res by (rule sameRows_trans[OF selectRow_sameRows])
  qed
qed

lemma finalTable_sameRows: "sameRows (Table2_new pis ms) (finalTable pis ms)"
proof -
  let ?t0 = "Table2_new pis ms"
  let ?t1 = "snd (findEssentialPrimeImplicants ?t0)"
  have e: "sameRows ?t0 ?t1"
    using essentialPass_sameRows[of ?t0 "length (columns ?t0)"]
    by (simp add: findEssentialPrimeImplicants_def)
  have "applyPetricksMethod ?t1 = ?t1 \<or> applyPetricksMethod ?t1 = petrickLoop ?t1"
    by (simp add: applyPetricksMethod_def Let_def)
  then have "sameRows ?t1 (applyPetricksMethod ?t1)"
    using petrickLoop_sameRows[of ?t1] by (auto simp: sameRows_refl)
  then have "sameRows ?t0 (applyPetricksMethod ?t1)" by (rule sameRows_trans[OF e])
  with e show ?thesis by (simp add: finalTable_def Let_def)
qed

lemma selectPrimeImplicants_subseq: "subseq (selectPrimeImplicants pis ms) pis"
  unfolding selectPrimeImplicants_alt[OF finalTable_sameRows] by (rule subseq_map_nth_filter)

lemma solve_cases:
  "solve ms dcs v = Inr []
   \<or> (\<exists>t m. solve ms dcs v = Inl (TermExceedsMaximum t m v))
   \<or> solve ms dcs v = Inr (map (\<lambda>r. RequiredLoop_new (minterms r) (bits r))
        (selectPrimeImplicants (findPrimeImplicants ms dcs v) ms))"
  by (simp add: solve_def Let_def split: option.split)

lemma solve_subseq:
  assumes "solve ms dcs v = Inr loops"
  shows "subseq loops (map (\<lambda>r. RequiredLoop_new (minterms r) (bits r)) (findPrimeImplicants ms dcs v))"
proof -
  from solve_cases[of ms dcs v] assms
  have "loops = [] \<or> loops = map (\<lambda>r. RequiredLoop_new (minterms r) (bits r))
        (selectPrimeImplicants (findPrimeImplicants ms dcs v) ms)" by auto
  then show ?thesis
  proof
    assume "loops = []" then show ?thesis by simp
  next
    assume l: "loops = map (\<lambda>r. RequiredLoop_new (minterms r) (bits r))
        (selectPrimeImplicants (findPrimeImplicants ms dcs v) ms)"
    show ?thesis unfolding l by (rule subseq_map[OF selectPrimeImplicants_subseq])
  qed
qed

lemma solve_accepts:
  assumes "ms \<noteq> []" "\<forall>t\<in>set (ms @ dcs). t \<le> maxPossibleTerm v"
  shows "solve ms dcs v = Inr (map (\<lambda>r. RequiredLoop_new (minterms r) (bits r))
        (selectPrimeImplicants (findPrimeImplicants ms dcs v) ms))"
proof -
  have f: "find (\<lambda>term. term > maxPossibleTerm v) (ms @ dcs) = None"
    using assms(2) by (simp add: find_None_iff2 not_less)
  from assms(1) obtain m where "m \<in> set (ms @ dcs)" by (cases ms) auto
  with findPrimeImplicants_covers[of ms dcs v] have "findPrimeImplicants ms dcs v \<noteq> []" by fastforce
  with f assms(1) show ?thesis by (simp add: solve_def Let_def)
qed

lemma selected_cover:
  assumes "\<forall>m\<in>set ms. \<exists>p\<in>set pis. m \<in> set (minterms p)" "m \<in> set ms"
  shows "\<exists>r\<in>set (selectPrimeImplicants pis ms). m \<in> set (minterms r)"
proof -
  let ?t = "finalTable pis ms"
  from finalTable_props[OF assms(1)]
  have inv: "tableInv ms ?t" and sr: "sameRows (Table2_new pis ms) ?t" and fc: "isFullyCovered ?t"
    by blast+
  from fc have "uncoveredMinterms ?t = []" by (simp add: isFullyCovered_def)
  with inv assms(2) obtain i where i: "i < length (rows ?t)" "isSelected (rows ?t ! i)"
    "m \<in> set (coverage (rows ?t ! i))" by (auto simp: tableInv_def)
  have len: "length (rows ?t) = length pis" using sr by (simp add: sameRows_def Table2_new_def)
  have "coverage (rows ?t ! i) = uniq (minterms (pis ! i))"
    using sr i(1) len by (simp add: sameRows_def Table2_new_def Table2Row_new_def)
  with i(3) have m: "m \<in> set (minterms (pis ! i))" by simp
  have "i \<in> set (filter (\<lambda>i. isSelected (rows ?t ! i)) [0..<length pis])"
    using i len by simp
  then have "pis ! i \<in> set (selectPrimeImplicants pis ms)"
    unfolding selectPrimeImplicants_alt[OF sr] set_map by (rule imageI)
  with m show ?thesis by blast
qed

lemma solve_covers:
  assumes "ms \<noteq> []" "\<forall>t\<in>set (ms @ dcs). t \<le> maxPossibleTerm v"
  shows "\<exists>loops. solve ms dcs v = Inr loops
     \<and> (\<forall>m\<in>set ms. \<exists>l\<in>set loops. m \<in> set (loop_minterms l))
     \<and> (\<forall>l\<in>set loops. set (loop_minterms l) \<subseteq> set ms \<union> set dcs)
     \<and> isFullyCovered (finalTable (findPrimeImplicants ms dcs v) ms)"
proof -
  let ?pis = "findPrimeImplicants ms dcs v"
  let ?sel = "selectPrimeImplicants ?pis ms"
  let ?loops = "map (\<lambda>r. RequiredLoop_new (minterms r) (bits r)) ?sel"
  from solve_accepts[OF assms] have s: "solve ms dcs v = Inr ?loops" .
  have cov: "\<forall>m\<in>set ms. \<exists>p\<in>set ?pis. m \<in> set (minterms p)"
    using findPrimeImplicants_covers[of ms dcs v] by simp
  have 1: "\<exists>l\<in>set ?loops. m \<in> set (loop_minterms l)" if "m \<in> set ms" for m
  proof -
    from selected_cover[OF cov that] obtain r where "r \<in> set ?sel" "m \<in> set (minterms r)" by blast
    then show ?thesis by (auto simp: RequiredLoop_new_def intro!: bexI[of _ r])
  qed
  have 2: "set (loop_minterms l) \<subseteq> set ms \<union> set dcs" if "l \<in> set ?loops" for l
  proof -
    from that obtain r where r: "r \<in> set ?sel" "l = RequiredLoop_new (minterms r) (bits r)" by auto
    from r(1) have "r \<in> set ?pis"
      using list_emb_set[OF selectPrimeImplicants_subseq[of ?pis ms], of r] by blast
    then have "set (minterms r) \<subseteq> set (ms @ dcs)"
      using findPrimeImplicants_covers[of ms dcs v] by blast
    then show ?thesis by (simp add: r(2) RequiredLoop_new_def)
  qed
  have 3: "isFullyCovered (finalTable ?pis ms)" using finalTable_props[OF cov] by blast
  from s 1 2 3 show ?thesis by blast
qed

section \<open>The essential pass\<close>

lemma markFirst_props:
  "distinct (map minterm cs) \<Longrightarrow>
     map minterm (markFirst cs m) = map minterm cs
     \<and> (\<forall>j<length cs. isCovered (markFirst cs m ! j) = (isCovered (cs ! j) \<or> minterm (cs ! j) = m))"
proof (induction cs)
  case Nil
  then show ?case by simp
next
  case (Cons c cs)
  show ?case
  proof (cases "minterm c = m")
    case True
    have "minterm (cs ! j) \<noteq> m" if "j < length cs" for j
    proof -
      from that have "minterm (cs ! j) \<in> minterm ` set cs" by (intro imageI nth_mem)
      with Cons.prems True show ?thesis by auto
    qed
    with True show ?thesis by (auto simp: nth_Cons split: nat.splits)
  next
    case False
    with Cons show ?thesis by (auto simp: nth_Cons split: nat.splits)
  qed
qed

lemma foldl_markOne_columns:
  "distinct (map minterm (columns t)) \<Longrightarrow>
     map minterm (columns (foldl markOne t xs)) = map minterm (columns t)
     \<and> (\<forall>j<length (columns t). isCovered (columns (foldl markOne t xs) ! j)
           = (isCovered (columns t ! j) \<or> minterm (columns t ! j) \<in> set xs))"
proof (induction xs arbitrary: t)
  case Nil
  then show ?case by simp
next
  case (Cons x xs)
  let ?t1 = "markOne t x"
  have c1: "columns ?t1 = markFirst (columns t) x" by (simp add: markOne_def)
  from markFirst_props[OF Cons.prems, of x]
  have m1: "map minterm (columns ?t1) = map minterm (columns t)"
    and k1: "\<forall>j<length (columns t). isCovered (columns ?t1 ! j)
        = (isCovered (columns t ! j) \<or> minterm (columns t ! j) = x)"
    unfolding c1 by blast+
  have d1: "distinct (map minterm (columns ?t1))" using Cons.prems m1 by simp
  have len: "length (columns ?t1) = length (columns t)" using m1 by (rule map_eq_imp_length_eq)
  have mt: "minterm (columns ?t1 ! j) = minterm (columns t ! j)" if "j < length (columns t)" for j
    using that m1 len by (metis nth_map)
  from Cons.IH[OF d1]
  have IH1: "map minterm (columns (foldl markOne ?t1 xs)) = map minterm (columns ?t1)"
    and IH2: "\<forall>j<length (columns ?t1). isCovered (columns (foldl markOne ?t1 xs) ! j)
           = (isCovered (columns ?t1 ! j) \<or> minterm (columns ?t1 ! j) \<in> set xs)"
    by blast+
  have "isCovered (columns (foldl markOne ?t1 xs) ! j)
           = (isCovered (columns t ! j) \<or> minterm (columns t ! j) \<in> set (x # xs))"
    if "j < length (columns t)" for j
    using IH2 k1 mt[OF that] that len by auto
  with IH1 m1 show ?case by simp
qed

lemma selectRow_columns:
  assumes "distinct (map minterm (columns t))" "i < length (rows t)"
  shows "map minterm (columns (selectRow t i)) = map minterm (columns t)"
    and "j < length (columns t) \<Longrightarrow> isCovered (columns (selectRow t i) ! j)
           = (isCovered (columns t ! j) \<or> minterm (columns t ! j) \<in> set (coverage (rows t ! i)))"
proof -
  let ?t' = "setSelected t i"
  have c: "columns ?t' = columns t" by (simp add: setSelected_def)
  have r: "coverage (rows ?t' ! i) = coverage (rows t ! i)"
    using assms(2) by (simp add: setSelected_def)
  have s: "selectRow t i = foldl markOne ?t' (coverage (rows t ! i))"
    by (simp add: selectRow_def Let_def markCovered_def getCoveredMinterms_def r)
  from foldl_markOne_columns[of ?t' "coverage (rows t ! i)"] assms(1)
  show "map minterm (columns (selectRow t i)) = map minterm (columns t)"
    and "j < length (columns t) \<Longrightarrow> isCovered (columns (selectRow t i) ! j)
           = (isCovered (columns t ! j) \<or> minterm (columns t ! j) \<in> set (coverage (rows t ! i)))"
    unfolding s c by blast+
qed

lemma length_one_nth0: "length xs = 1 \<Longrightarrow> xs = [xs ! 0]"
  by (cases xs) auto

lemma essentialStep_unfold:
  "snd (essentialStep (e, t) k) =
     (if \<not> isCovered (columns t ! k) \<and> length (coveringRows t (minterm (columns t ! k))) = 1
      then selectRow t (coveringRows t (minterm (columns t ! k)) ! 0) else t)"
proof -
  let ?cr = "coveringRows t (minterm (columns t ! k))"
  have "\<not> isSelected (rows t ! (?cr ! 0))" if "length ?cr = 1"
  proof -
    from that have "?cr ! 0 \<in> set ?cr" by (metis nth_mem zero_less_one)
    then show ?thesis by (simp add: coveringRows_def)
  qed
  then show ?thesis by (auto simp: essentialStep_def Let_def selectRow_def)
qed

lemma coveringRows_mem:
  "i \<in> set (coveringRows t m) \<longleftrightarrow>
     i < length (rows t) \<and> \<not> isSelected (rows t ! i) \<and> m \<in> set (coverage (rows t ! i))"
  by (auto simp: coveringRows_def coversMinterm_def)

lemma essentialStep_selects:
  assumes "i < length (rows t)" "isSelected (rows (snd (essentialStep (e, t) k)) ! i)"
    "\<not> isSelected (rows t ! i)"
  shows "\<not> isCovered (columns t ! k) \<and> coveringRows t (minterm (columns t ! k)) = [i]"
proof -
  let ?cr = "coveringRows t (minterm (columns t ! k))"
  have ch: "\<not> isCovered (columns t ! k) \<and> length ?cr = 1"
    using assms(2,3) unfolding essentialStep_unfold by (auto split: if_splits)
  then have s: "snd (essentialStep (e, t) k) = selectRow t (?cr ! 0)"
    unfolding essentialStep_unfold by simp
  from assms(1,2,3) have "i = ?cr ! 0"
    unfolding s by (simp add: selectRow_selected)
  with ch length_one_nth0[of ?cr] show ?thesis by simp
qed

lemma coveringRows_selectRow:
  assumes "c < length (rows t)" "m \<notin> set (coverage (rows t ! c))"
  shows "coveringRows (selectRow t c) m = coveringRows t m"
proof -
  have len: "length (rows (selectRow t c)) = length (rows t)" by (simp add: selectRow_rows)
  have "(\<not> isSelected (rows (selectRow t c) ! i) \<and> coversMinterm (rows (selectRow t c) ! i) m)
      = (\<not> isSelected (rows t ! i) \<and> coversMinterm (rows t ! i) m)" if "i < length (rows t)" for i
    using that assms selectRow_sameRows[of t c]
    by (auto simp: selectRow_selected coversMinterm_def sameRows_def)
  then show ?thesis
    unfolding coveringRows_def len by (intro filter_cong) auto
qed

lemma essentialStep_passInv:
  assumes "distinct ms" "passInv ms k t" "k < length ms"
  shows "passInv ms (Suc k) (snd (essentialStep (e, t) k))"
proof -
  let ?cr = "coveringRows t (minterm (columns t ! k))"
  from assms(2) have mm: "map minterm (columns t) = ms"
    and old: "\<forall>j<k. \<not> isCovered (columns t ! j) \<longrightarrow> length (coveringRows t (ms ! j)) \<noteq> 1"
    by (simp_all add: passInv_def)
  have len: "length (columns t) = length ms" using mm by (metis length_map)
  have mt: "minterm (columns t ! j) = ms ! j" if "j < length ms" for j
    using that mm len by (metis nth_map)
  have dist: "distinct (map minterm (columns t))" using assms(1) mm by simp
  show ?thesis
  proof (cases "\<not> isCovered (columns t ! k) \<and> length ?cr = 1")
    case False
    then have s: "snd (essentialStep (e, t) k) = t"
      unfolding essentialStep_unfold by (rule if_not_P)
    have "length (coveringRows t (ms ! j)) \<noteq> 1" if "j < Suc k" "\<not> isCovered (columns t ! j)" for j
    proof (cases "j = k")
      case True
      with False that(2) mt[OF assms(3)] show ?thesis by auto
    next
      case False
      with that old show ?thesis by simp
    qed
    with mm show ?thesis unfolding s passInv_def by blast
  next
    case True
    let ?c = "?cr ! 0"
    from True have s: "snd (essentialStep (e, t) k) = selectRow t ?c"
      unfolding essentialStep_unfold by (rule if_P)
    from True have "?c \<in> set ?cr" by (metis nth_mem zero_less_one)
    then have c: "?c < length (rows t)" "ms ! k \<in> set (coverage (rows t ! ?c))"
      using mt[OF assms(3)] by (simp_all add: coveringRows_mem)
    have mm': "map minterm (columns (selectRow t ?c)) = ms"
      using selectRow_columns(1)[OF dist c(1)] mm by simp
    have cov': "isCovered (columns (selectRow t ?c) ! j)
        = (isCovered (columns t ! j) \<or> ms ! j \<in> set (coverage (rows t ! ?c)))" if "j < length ms" for j
      using selectRow_columns(2)[OF dist c(1), of j] that len mt[OF that] by simp
    have "length (coveringRows (selectRow t ?c) (ms ! j)) \<noteq> 1"
      if j: "j < Suc k" "\<not> isCovered (columns (selectRow t ?c) ! j)" for j
    proof -
      from j(1) assms(3) have jl: "j < length ms" by simp
      from j(2) cov'[OF jl] have nc: "\<not> isCovered (columns t ! j)"
        and nm: "ms ! j \<notin> set (coverage (rows t ! ?c))" by simp_all
      from nm c(2) have "j \<noteq> k" by auto
      with j(1) have "j < k" by simp
      with old nc have "length (coveringRows t (ms ! j)) \<noteq> 1" by simp
      then show ?thesis unfolding coveringRows_selectRow[OF c(1) nm] .
    qed
    with mm' show ?thesis unfolding s passInv_def by blast
  qed
qed

lemma essentialPass_passInv:
  assumes "distinct ms" "map minterm (columns t) = ms" "k \<le> length ms"
  shows "passInv ms k (snd (essentialPass t k))"
  using assms(3)
proof (induction k)
  case 0
  then show ?case using assms(2) by (simp add: essentialPass_def passInv_def)
next
  case (Suc k)
  obtain e t1 where p: "essentialPass t k = (e, t1)" by (metis surj_pair)
  with Suc have "passInv ms k t1" by simp
  from essentialStep_passInv[OF assms(1) this, of e] Suc.prems
  show ?case by (simp add: essentialPass_Suc p)
qed

lemma essentialPass_again:
  assumes "\<forall>j<length (columns t). \<not> isCovered (columns t ! j) \<longrightarrow>
      length (coveringRows t (minterm (columns t ! j))) \<noteq> 1" "k \<le> length (columns t)"
  shows "essentialPass t k = ([], t)"
  using assms(2)
proof (induction k)
  case 0
  then show ?case by (simp add: essentialPass_def)
next
  case (Suc k)
  then have IH: "essentialPass t k = ([], t)" and k: "k < length (columns t)" by simp_all
  from assms(1) k have "isCovered (columns t ! k) \<or> length (coveringRows t (minterm (columns t ! k))) \<noteq> 1"
    by blast
  then have "essentialStep ([], t) k = ([], t)"
    by (elim disjE) (simp_all add: essentialStep_def Let_def)
  then show ?case by (simp add: essentialPass_Suc IH)
qed

lemma Table2_new_columns: "map minterm (columns (Table2_new pis ms)) = ms"
  by (simp add: Table2_new_def Table2Column_new_def comp_def)

text \<open>The pass of the source and the sweep of the specification.\<close>

lemma markFirst_map:
  "distinct (map minterm cs) \<Longrightarrow>
     markFirst cs m = map (\<lambda>c. if minterm c = m then c\<lparr>isCovered := True\<rparr> else c) cs"
proof (induction cs)
  case Nil
  then show ?case by simp
next
  case (Cons c cs)
  show ?case
  proof (cases "minterm c = m")
    case True
    with Cons.prems have "m \<notin> minterm ` set cs" by simp
    then have "\<forall>d\<in>set cs. minterm d \<noteq> m" by (metis imageI)
    then have "map (\<lambda>c. if minterm c = m then c\<lparr>isCovered := True\<rparr> else c) cs = cs"
      by (intro map_idI) simp
    with True show ?thesis by simp
  next
    case False
    with Cons show ?thesis by simp
  qed
qed

lemma foldl_markOne_spec:
  "distinct (map minterm (columns t)) \<Longrightarrow>
     foldl markOne t xs =
       t\<lparr>columns := map (\<lambda>c. if minterm c \<in> set xs then c\<lparr>isCovered := True\<rparr> else c) (columns t),
         uncoveredMinterms := filter (\<lambda>m. m \<notin> set xs) (uncoveredMinterms t)\<rparr>"
proof (induction xs arbitrary: t)
  case Nil
  then show ?case by simp
next
  case (Cons x xs)
  let ?g = "\<lambda>c. if minterm c = x then c\<lparr>isCovered := True\<rparr> else c"
  let ?t1 = "markOne t x"
  have c1: "columns ?t1 = map ?g (columns t)"
    by (simp add: markOne_def markFirst_map[OF Cons.prems])
  have u1: "uncoveredMinterms ?t1 = filter (\<lambda>m. m \<noteq> x) (uncoveredMinterms t)"
  proof -
    have "removeAll x ys = filter (\<lambda>m. m \<noteq> x) ys" for ys :: "int list"
      by (induction ys) auto
    then show ?thesis by (simp add: markOne_def)
  qed
  have m1: "map minterm (map ?g (columns t)) = map minterm (columns t)"
    by (rule nth_equalityI) simp_all
  have d1: "distinct (map minterm (columns ?t1))"
    unfolding c1 m1 by (rule Cons.prems)
  have comp: "map (\<lambda>c. if minterm c \<in> set xs then c\<lparr>isCovered := True\<rparr> else c) (map ?g (columns t))
      = map (\<lambda>c. if minterm c \<in> set (x # xs) then c\<lparr>isCovered := True\<rparr> else c) (columns t)"
    by (rule nth_equalityI) simp_all
  have fl: "filter (\<lambda>m. m \<notin> set xs) (filter (\<lambda>m. m \<noteq> x) (uncoveredMinterms t))
      = filter (\<lambda>m. m \<notin> set (x # xs)) (uncoveredMinterms t)"
    by (simp add: conj_commute)
  have "foldl markOne t (x # xs) = foldl markOne ?t1 xs" by simp
  also have "\<dots> = ?t1\<lparr>columns := map (\<lambda>c. if minterm c \<in> set xs then c\<lparr>isCovered := True\<rparr> else c) (columns ?t1),
         uncoveredMinterms := filter (\<lambda>m. m \<notin> set xs) (uncoveredMinterms ?t1)\<rparr>"
    by (rule Cons.IH[OF d1])
  also have "\<dots> = t\<lparr>columns := map (\<lambda>c. if minterm c \<in> set (x # xs) then c\<lparr>isCovered := True\<rparr> else c) (columns t),
         uncoveredMinterms := filter (\<lambda>m. m \<notin> set (x # xs)) (uncoveredMinterms t)\<rparr>"
    unfolding c1 u1 comp fl by (simp add: markOne_def)
  finally show ?case .
qed

lemma markCovered_spec:
  "distinct (map minterm (columns t)) \<Longrightarrow> markCovered t row = specMarkCovered t row"
  by (simp add: markCovered_def getCoveredMinterms_def foldl_markOne_spec specMarkCovered_def
      coversMinterm_def)

lemma essentialStep_spec:
  assumes "distinct (map minterm (columns t))"
  shows "snd (essentialStep (e, t) k) = specStep t k"
proof (cases "specUnique t k")
  case False
  then show ?thesis
    unfolding essentialStep_unfold specStep_def by (auto simp: specUnique_def)
next
  case True
  let ?cr = "coveringRows t (minterm (columns t ! k))"
  let ?c = "?cr ! 0"
  from True have l: "length ?cr = 1" by (simp add: specUnique_def)
  then have hd: "hd ?cr = ?c" by (cases ?cr) auto
  from l have "?c \<in> set ?cr" by (metis nth_mem zero_less_one)
  then have c: "?c < length (rows t)" "\<not> isSelected (rows t ! ?c)"
    by (simp_all add: coveringRows_mem)
  from True have "snd (essentialStep (e, t) k) = selectRow t ?c"
    unfolding essentialStep_unfold by (simp add: specUnique_def)
  also have "\<dots> = markCovered (setSelected t ?c) (rows (setSelected t ?c) ! ?c)"
    by (simp add: selectRow_def Let_def)
  also have "\<dots> = specMarkCovered (setSelected t ?c) (rows (setSelected t ?c) ! ?c)"
    by (rule markCovered_spec) (simp add: setSelected_def assms)
  also have "\<dots> = specMarkCovered (setSelected t ?c) (rows t ! ?c)"
    using c(1) by (simp add: specMarkCovered_def setSelected_def coversMinterm_def)
  also have "\<dots> = specStep t k"
    using True by (simp add: specStep_def Let_def hd)
  finally show ?thesis .
qed

lemma specStep_minterms: "map minterm (columns (specStep t j)) = map minterm (columns t)"
proof -
  have "map minterm (map (\<lambda>c. if P c then c\<lparr>isCovered := True\<rparr> else c) cs) = map minterm cs"
    for P and cs :: "Table2Column list"
    by (rule nth_equalityI) simp_all
  then show ?thesis
    by (simp add: specStep_def Let_def specMarkCovered_def setSelected_def)
qed

lemma foldl_specStep_minterms: "map minterm (columns (foldl specStep t js)) = map minterm (columns t)"
  by (induction js arbitrary: t) (simp_all add: specStep_minterms)

lemma essentialPass_spec:
  assumes "distinct (map minterm (columns t))"
  shows "snd (essentialPass t k) = foldl specStep t [0..<k]"
proof (induction k)
  case 0
  then show ?case by (simp add: essentialPass_def)
next
  case (Suc k)
  obtain e t1 where p: "essentialPass t k = (e, t1)" by (metis surj_pair)
  with Suc have t1: "t1 = foldl specStep t [0..<k]" by simp
  then have "distinct (map minterm (columns t1))"
    using assms by (simp add: foldl_specStep_minterms)
  from essentialStep_spec[OF this, of e k] show ?case
    by (simp add: essentialPass_Suc p t1)
qed

lemma selectedCovers_nth:
  "selectedCovers t m \<longleftrightarrow>
     (\<exists>i<length (rows t). isSelected (rows t ! i) \<and> coversMinterm (rows t ! i) m)"
  unfolding selectedCovers_def by (metis in_set_conv_nth)

lemma allCoveringRows_mem:
  "i \<in> set (allCoveringRows t m) \<longleftrightarrow> i < length (rows t) \<and> coversMinterm (rows t ! i) m"
  by (auto simp: allCoveringRows_def)

lemma coveringRows_all:
  assumes "\<not> selectedCovers t m"
  shows "coveringRows t m = allCoveringRows t m"
  unfolding coveringRows_def allCoveringRows_def
proof (rule filter_cong[OF refl])
  fix i assume "i \<in> set [0..<length (rows t)]"
  then have "i < length (rows t)" by simp
  with assms show "(\<not> isSelected (rows t ! i) \<and> coversMinterm (rows t ! i) m)
      = coversMinterm (rows t ! i) m"
    unfolding selectedCovers_nth by blast
qed

lemma allCoveringRows_sameRows:
  assumes "sameRows t t'"
  shows "allCoveringRows t' m = allCoveringRows t m"
proof -
  from assms have len: "length (rows t') = length (rows t)"
    and cov: "\<forall>i<length (rows t). coverage (rows t' ! i) = coverage (rows t ! i)"
    by (simp_all add: sameRows_def)
  show ?thesis
    unfolding allCoveringRows_def len
    by (rule filter_cong[OF refl]) (simp add: coversMinterm_def cov)
qed

lemma specStep_essInv:
  assumes "essInv ms k t" "k < length ms"
  shows "essInv ms (Suc k) (specStep t k)"
proof -
  from assms(1) have mm: "map minterm (columns t) = ms"
    and fl: "\<forall>j<length ms. isCovered (columns t ! j) = selectedCovers t (ms ! j)"
    and sel: "\<forall>i<length (rows t). isSelected (rows t ! i) \<longrightarrow> (\<exists>m\<in>set ms. allCoveringRows t m = [i])"
    and old: "\<forall>j<k. \<forall>i. allCoveringRows t (ms ! j) = [i] \<longrightarrow> isSelected (rows t ! i)"
    by (simp_all add: essInv_def)
  have len: "length (columns t) = length ms" using mm by (metis length_map)
  have mt: "minterm (columns t ! j) = ms ! j" if "j < length ms" for j
    using that mm len by (metis nth_map)
  let ?m = "ms ! k"
  show ?thesis
  proof (cases "specUnique t k")
    case False
    then have s: "specStep t k = t" by (simp add: specStep_def)
    have new: "isSelected (rows t ! i)" if a: "allCoveringRows t ?m = [i]" for i
    proof (cases "selectedCovers t ?m")
      case True
      then obtain i' where i': "i' < length (rows t)" "isSelected (rows t ! i')"
        "coversMinterm (rows t ! i') ?m"
        unfolding selectedCovers_nth by blast
      then have "i' \<in> set (allCoveringRows t ?m)" by (simp add: allCoveringRows_mem)
      with a have "i' = i" by simp
      with i'(2) show ?thesis by simp
    next
      case nc: False
      then have "\<not> isCovered (columns t ! k)" using fl assms(2) by simp
      moreover have "length (coveringRows t ?m) = 1" using coveringRows_all[OF nc] a by simp
      ultimately have "specUnique t k" by (simp add: specUnique_def mt[OF assms(2)])
      with False show ?thesis by simp
    qed
    have "isSelected (rows t ! i)" if "j < Suc k" "allCoveringRows t (ms ! j) = [i]" for j i
    proof (cases "j = k")
      case True
      with that(2) new show ?thesis by simp
    next
      case False
      with that(1) have "j < k" by simp
      with old that(2) show ?thesis by blast
    qed
    then have "\<forall>j<Suc k. \<forall>i. allCoveringRows t (ms ! j) = [i] \<longrightarrow> isSelected (rows t ! i)"
      by blast
    with mm fl sel show ?thesis unfolding s essInv_def by blast
  next
    case True
    let ?cr = "coveringRows t ?m"
    let ?c = "hd ?cr"
    let ?t' = "specStep t k"
    from True have nf: "\<not> isCovered (columns t ! k)" and l: "length ?cr = 1"
      by (simp_all add: specUnique_def mt[OF assms(2)])
    from l have cr: "?cr = [?c]" by (cases ?cr) auto
    then have "?c \<in> set ?cr" by (metis list.set_intros(1))
    then have c: "?c < length (rows t)" "\<not> isSelected (rows t ! ?c)" "coversMinterm (rows t ! ?c) ?m"
      by (simp_all add: coveringRows_mem coversMinterm_def)
    from nf fl assms(2) have nsc: "\<not> selectedCovers t ?m" by simp
    have all: "allCoveringRows t ?m = [?c]" using coveringRows_all[OF nsc] cr by simp
    have r': "rows ?t' = (rows t)[?c := (rows t ! ?c)\<lparr>isSelected := True\<rparr>]"
      using True by (simp add: specStep_def Let_def specMarkCovered_def setSelected_def mt[OF assms(2)])
    have c': "columns ?t' = map (\<lambda>col. if coversMinterm (rows t ! ?c) (minterm col)
                then col\<lparr>isCovered := True\<rparr> else col) (columns t)"
      using True by (simp add: specStep_def Let_def specMarkCovered_def setSelected_def mt[OF assms(2)])
    have rlen: "length (rows ?t') = length (rows t)" by (simp add: r')
    have rcov: "coversMinterm (rows ?t' ! i) m = coversMinterm (rows t ! i) m" for i m
      by (simp add: r' nth_list_update_gen coversMinterm_def)
    have rsel: "isSelected (rows ?t' ! i) = (isSelected (rows t ! i) \<or> i = ?c)" if "i < length (rows t)" for i
      using that c(1) by (auto simp: r' nth_list_update_gen)
    have all': "allCoveringRows ?t' m = allCoveringRows t m" for m
      unfolding allCoveringRows_def rlen by (rule filter_cong[OF refl]) (simp add: rcov)
    have sc': "selectedCovers ?t' m = (selectedCovers t m \<or> coversMinterm (rows t ! ?c) m)" for m
    proof
      assume "selectedCovers ?t' m"
      then obtain i where i: "i < length (rows t)" "isSelected (rows ?t' ! i)"
        "coversMinterm (rows t ! i) m"
        unfolding selectedCovers_nth rlen rcov by blast
      show "selectedCovers t m \<or> coversMinterm (rows t ! ?c) m"
      proof (cases "i = ?c")
        case True
        with i(3) show ?thesis by simp
      next
        case False
        with i(2) rsel[OF i(1)] have "isSelected (rows t ! i)" by simp
        with i(1,3) show ?thesis unfolding selectedCovers_nth by blast
      qed
    next
      assume "selectedCovers t m \<or> coversMinterm (rows t ! ?c) m"
      then show "selectedCovers ?t' m"
      proof
        assume "selectedCovers t m"
        then obtain i where i: "i < length (rows t)" "isSelected (rows t ! i)"
          "coversMinterm (rows t ! i) m"
          unfolding selectedCovers_nth by blast
        from i(2) rsel[OF i(1)] have "isSelected (rows ?t' ! i)" by simp
        with i(1,3) show ?thesis unfolding selectedCovers_nth rlen rcov by blast
      next
        assume "coversMinterm (rows t ! ?c) m"
        moreover from rsel[OF c(1)] have "isSelected (rows ?t' ! ?c)" by simp
        ultimately show ?thesis using c(1) unfolding selectedCovers_nth rlen rcov by blast
      qed
    qed
    have mm': "map minterm (columns ?t') = ms" using mm by (simp add: specStep_minterms)
    have fl': "isCovered (columns ?t' ! j) = selectedCovers ?t' (ms ! j)" if "j < length ms" for j
    proof -
      from that len have j: "j < length (columns t)" by simp
      have "isCovered (columns ?t' ! j)
          = (isCovered (columns t ! j) \<or> coversMinterm (rows t ! ?c) (ms ! j))"
        unfolding c' using j mt[OF that] by simp
      with fl that show ?thesis unfolding sc' by simp
    qed
    have sel': "\<exists>m\<in>set ms. allCoveringRows ?t' m = [i]"
      if "i < length (rows ?t')" "isSelected (rows ?t' ! i)" for i
    proof (cases "i = ?c")
      case True
      have "?m \<in> set ms" using assms(2) by (rule nth_mem)
      with all True show ?thesis unfolding all' by blast
    next
      case False
      with that rsel[of i] rlen have "i < length (rows t)" "isSelected (rows t ! i)" by simp_all
      with sel show ?thesis unfolding all' by blast
    qed
    have old': "isSelected (rows ?t' ! i)" if "j < Suc k" "allCoveringRows ?t' (ms ! j) = [i]" for j i
    proof -
      from that(2) have a: "allCoveringRows t (ms ! j) = [i]" unfolding all' .
      then have "i \<in> set (allCoveringRows t (ms ! j))" by simp
      then have il: "i < length (rows t)" by (simp add: allCoveringRows_mem)
      show ?thesis
      proof (cases "j = k")
        case True
        with a all have "i = ?c" by simp
        with rsel[OF il] show ?thesis by simp
      next
        case False
        with that(1) have "j < k" by simp
        with old a have "isSelected (rows t ! i)" by blast
        with rsel[OF il] show ?thesis by simp
      qed
    qed
    from mm' fl' sel' old' show ?thesis unfolding essInv_def by blast
  qed
qed

lemma foldl_specStep_Suc: "foldl specStep t [0..<Suc k] = specStep (foldl specStep t [0..<k]) k"
  by simp

lemma specPass_essInv:
  assumes "essInv ms 0 t" "k \<le> length ms"
  shows "essInv ms k (foldl specStep t [0..<k])"
  using assms(2)
proof (induction k)
  case 0
  then show ?case using assms(1) by simp
next
  case (Suc k)
  then have "essInv ms k (foldl specStep t [0..<k])" "k < length ms" by simp_all
  from specStep_essInv[OF this] show ?case unfolding foldl_specStep_Suc .
qed

lemma Table2_new_essInv: "essInv ms 0 (Table2_new pis ms)"
proof -
  have "\<not> selectedCovers (Table2_new pis ms) m" for m
    by (auto simp: selectedCovers_def Table2_new_def Table2Row_new_def)
  moreover have "\<not> isCovered (columns (Table2_new pis ms) ! j)" if "j < length ms" for j
    using that by (simp add: Table2_new_def Table2Column_new_def)
  moreover have "\<not> isSelected (rows (Table2_new pis ms) ! i)" if "i < length (rows (Table2_new pis ms))" for i
    using that by (simp add: Table2_new_def Table2Row_new_def)
  ultimately show ?thesis
    unfolding essInv_def using Table2_new_columns[of pis ms] by simp
qed

lemma specEssential_pass:
  assumes "distinct ms"
  shows "specEssential (Table2_new pis ms) = snd (findEssentialPrimeImplicants (Table2_new pis ms))"
proof -
  let ?t0 = "Table2_new pis ms"
  let ?tf = "snd (findEssentialPrimeImplicants ?t0)"
  have len0: "length (columns ?t0) = length ms" by (simp add: Table2_new_def)
  have d0: "distinct (map minterm (columns ?t0))" using assms by (simp add: Table2_new_columns)
  have sweep: "specSweep ?t0 = ?tf"
    unfolding specSweep_def findEssentialPrimeImplicants_def essentialPass_spec[OF d0] ..
  have inv: "passInv ms (length ms) ?tf"
    using essentialPass_passInv[OF assms Table2_new_columns, of "length ms" pis]
    by (simp add: findEssentialPrimeImplicants_def len0)
  then have mm: "map minterm (columns ?tf) = ms" by (simp add: passInv_def)
  then have lenf: "length (columns ?tf) = length ms" by (metis length_map)
  have mt: "minterm (columns ?tf ! j) = ms ! j" if "j < length ms" for j
    using that mm lenf by (metis nth_map)
  have "\<not> specUnique ?tf j" if "j < length ms" for j
    using inv that mt[OF that] by (auto simp: passInv_def specUnique_def)
  then have nf: "\<not> list_ex (specUnique ?tf) [0..<length (columns ?tf)]"
    unfolding lenf by (simp add: list_ex_iff)
  have stay: "specEssential ?tf = ?tf"
    by (subst specEssential.simps) (simp only: nf if_False)
  show ?thesis
  proof (cases "list_ex (specUnique ?t0) [0..<length (columns ?t0)]")
    case True
    have "specEssential ?t0 = specEssential (specSweep ?t0)"
      by (subst specEssential.simps) (simp only: True if_True)
    with sweep stay show ?thesis by simp
  next
    case False
    have e: "specEssential ?t0 = ?t0"
      by (subst specEssential.simps) (simp only: False if_False)
    from False have "\<forall>j<length (columns ?t0). \<not> isCovered (columns ?t0 ! j) \<longrightarrow>
        length (coveringRows ?t0 (minterm (columns ?t0 ! j))) \<noteq> 1"
      by (auto simp: list_ex_iff specUnique_def)
    from essentialPass_again[OF this, of "length (columns ?t0)"]
    have "?tf = ?t0" by (simp add: findEssentialPrimeImplicants_def)
    with e show ?thesis by simp
  qed
qed

lemma solve_rejects_iff:
  assumes "v \<le> 30"
  shows "(\<exists>e. solve ms dcs v = Inl e) \<longleftrightarrow> (ms \<noteq> [] \<and> (\<exists>t\<in>set (ms @ dcs). 2 ^ v - 1 < t))"
    and "solve ms dcs v = Inl e \<Longrightarrow>
      \<exists>t. find (\<lambda>t. 2 ^ v - 1 < t) (ms @ dcs) = Some t \<and> e = TermExceedsMaximum t (2 ^ v - 1) v"
proof -
  have f: "(find (\<lambda>t. 2 ^ v - 1 < t) (ms @ dcs) = None) = (\<not> (\<exists>t\<in>set (ms @ dcs). 2 ^ v - 1 < t))"
    by (simp add: find_None_iff2)
  show "(\<exists>e. solve ms dcs v = Inl e) \<longleftrightarrow> (ms \<noteq> [] \<and> (\<exists>t\<in>set (ms @ dcs). 2 ^ v - 1 < t))"
    using f by (cases "find (\<lambda>t. 2 ^ v - 1 < t) (ms @ dcs)")
      (auto simp: solve_def Let_def maxPossibleTerm_small[OF assms] simp del: set_append)
  show "solve ms dcs v = Inl e \<Longrightarrow>
      \<exists>t. find (\<lambda>t. 2 ^ v - 1 < t) (ms @ dcs) = Some t \<and> e = TermExceedsMaximum t (2 ^ v - 1) v"
    by (cases "find (\<lambda>t. 2 ^ v - 1 < t) (ms @ dcs)")
      (auto simp: solve_def Let_def maxPossibleTerm_small[OF assms] split: if_splits)
qed

section \<open>Termination bound of the extraction loop\<close>

text \<open>
  Claim C5. For every input over \<open>v\<close> variables the prime-implicant extraction loop
  terminates and runs at most \<open>v + 1\<close> combination passes: \<open>primeLoop\<close> is total (its
  termination is proved above for every column), and a budget of \<open>v + 1\<close> passes is
  enough for the bounded loop to return, with the result of \<open>primeLoop\<close>.
\<close>

theorem primeLoop_generations:
  "primeLoopBounded (v + 1) (firstColumn ms dcs v) [] = Some (primeLoop (firstColumn ms dcs v) [])"
  by (rule primeLoopBounded_enough[OF columnMeasure_firstColumn])

theorem primeLoop_generations_witness:
  "primeLoopBounded (3 + 1) (firstColumn [0, 1, 7] [] 3) [] =
     Some (primeLoop (firstColumn [0, 1, 7] [] 3) [])
   \<and> primeLoopBounded 1 (firstColumn [0, 1, 7] [] 3) [] = None"
proof -
  have "primeLoopBounded 1 (firstColumn [0, 1, 7] [] 3) [] = None" by code_simp
  with primeLoop_generations[of 3 "[0, 1, 7]" "[]"] show ?thesis by simp
qed

section \<open>Symmetry of the combination check\<close>

text \<open>
  Claim C7. \<open>canCombineWith\<close> is symmetric: for all records \<open>a\<close> and \<open>b\<close> the two calls
  return the same value, so both report \<open>-1\<close> (cannot combine) or both return the same
  differing position.
\<close>

theorem canCombineWith_symmetric: "canCombineWith a b = canCombineWith b a"
  by (simp add: canCombineWith_def scanBits_sym)

theorem canCombineWith_symmetric_witness:
  "canCombineWith (fromMinterm 0 2) (fromMinterm 1 2) = 1
   \<and> canCombineWith (fromMinterm 1 2) (fromMinterm 0 2) = 1"
proof -
  have "canCombineWith (fromMinterm 0 2) (fromMinterm 1 2) = 1" by code_simp
  with canCombineWith_symmetric[of "fromMinterm 0 2" "fromMinterm 1 2"] show ?thesis by simp
qed

section \<open>Correctness of the combination\<close>

text \<open>
  Claim C8. For records \<open>a\<close> and \<open>b\<close> with patterns of equal length and the value \<open>pos\<close>
  returned by \<open>canCombineWith a b\<close>, the record \<open>combineWith a b pos\<close> has as minterms the
  sorted duplicate-free union of the minterms of \<open>a\<close> and \<open>b\<close>, and a pattern of the length
  of the pattern of \<open>a\<close> that is DontCare at position \<open>pos\<close> and agrees with the pattern of
  \<open>a\<close> everywhere else; a returned position (\<open>0 \<le> pos\<close>) lies inside the pattern.
\<close>

theorem combineWith_correct:
  assumes "length (bits a) = length (bits b)" "canCombineWith a b = pos"
  shows "minterms (combineWith a b pos) = sorted_list_of_set (set (minterms a) \<union> set (minterms b))
     \<and> length (bits (combineWith a b pos)) = length (bits a)
     \<and> (\<forall>i<length (bits a).
           bits (combineWith a b pos) ! i = (if int i = pos then DontCare else bits a ! i))
     \<and> (0 \<le> pos \<longrightarrow> nat pos < length (bits a))"
proof (cases "0 \<le> pos")
  case True
  from canCombineWith_range[OF assms(2) True] have r: "nat pos < length (bits a)" by blast
  have "(bits a)[nat pos := DontCare] ! i = (if int i = pos then DontCare else bits a ! i)"
    if "i < length (bits a)" for i
    using that True r by (auto simp: nth_list_update)
  with r True show ?thesis
    by (simp add: combineWith_def Table1Record_new_def assignIndex_def sort_uniq)
next
  case False
  then have "int i \<noteq> pos" for i by auto
  with False show ?thesis
    by (simp add: combineWith_def Table1Record_new_def assignIndex_def sort_uniq)
qed

theorem combineWith_correct_witness:
  "length (bits (fromMinterm 0 2)) = length (bits (fromMinterm 1 2))
   \<and> canCombineWith (fromMinterm 0 2) (fromMinterm 1 2) = 1
   \<and> minterms (combineWith (fromMinterm 0 2) (fromMinterm 1 2) 1) = [0, 1]
   \<and> length (bits (combineWith (fromMinterm 0 2) (fromMinterm 1 2) 1)) = 2
   \<and> bits (combineWith (fromMinterm 0 2) (fromMinterm 1 2) 1) ! 0 = LFalse
   \<and> bits (combineWith (fromMinterm 0 2) (fromMinterm 1 2) 1) ! 1 = DontCare"
proof -
  let ?a = "fromMinterm 0 2" and ?b = "fromMinterm 1 2"
  have h1: "length (bits ?a) = length (bits ?b)" by code_simp
  have h2: "canCombineWith ?a ?b = 1" by code_simp
  have e1: "sorted_list_of_set (set (minterms ?a) \<union> set (minterms ?b)) = [0, 1]" by code_simp
  have e2: "bits ?a = [LFalse, LFalse]" by code_simp
  note c = combineWith_correct[OF h1 h2, unfolded e1 e2]
  from c have m: "minterms (combineWith ?a ?b 1) = [0, 1]" by blast
  from c have l: "length (bits (combineWith ?a ?b 1)) = 2" by simp
  from c have n: "\<forall>i<length [LFalse, LFalse].
      bits (combineWith ?a ?b 1) ! i = (if int i = 1 then DontCare else [LFalse, LFalse] ! i)"
    by blast
  from n have n0: "bits (combineWith ?a ?b 1) ! 0 = LFalse" by simp
  from n have n1: "bits (combineWith ?a ?b 1) ! 1 = DontCare" by simp
  from h1 h2 m l n0 n1 show ?thesis by blast
qed

section \<open>Round trip of the construction from a minterm\<close>

text \<open>
  Claim C9, as stated: for every \<open>m\<close> and \<open>v\<close> with \<open>0 \<le> m \<le> 2 ^ v - 1\<close>, position \<open>i\<close> of
  the pattern of \<open>fromMinterm m v\<close> is bit \<open>v - 1 - i\<close> of \<open>m\<close>, and the pattern read as a
  binary number is \<open>m\<close>. This fails for \<open>v = 33\<close> and \<open>m = 1\<close> (a term that the validation
  of \<open>solve\<close> accepts for 33 variables): the first step of the loop computes
  \<^verbatim>\<open>(minterm >> 32) & 1\<close>, the shift count is taken modulo 32, so the step reads bit 0 of
  \<open>m\<close>; position 0 is \<open>LTrue\<close> although bit 32 of \<open>m\<close> is clear, and the pattern reads as
  \<open>2 ^ 32 + 1\<close>.
\<close>

theorem fromMinterm_roundtrip_counterexample:
  "(0::int) \<le> 1 \<and> (1::int) \<le> 2 ^ 33 - 1 \<and> 1 \<le> maxPossibleTerm 33
   \<and> bits (fromMinterm 1 33) ! 0 = LTrue
   \<and> \<not> bit (1::int) (33 - 1 - 0)
   \<and> bitsValue (bits (fromMinterm 1 33)) = 2 ^ 32 + 1"
  by code_simp

text \<open>
  Claim C9, amended: for every variable count \<open>v \<le> 32\<close> and every \<open>m\<close> with
  \<open>0 \<le> m \<le> 2 ^ v - 1\<close>, the pattern of \<open>fromMinterm m v\<close> has length \<open>v\<close>, its position \<open>i\<close>
  is bit \<open>v - 1 - i\<close> of \<open>m\<close>, and read as a binary number (index 0 most significant) it
  is \<open>m\<close>.
\<close>

theorem fromMinterm_roundtrip:
  assumes "v \<le> 32" "0 \<le> m" "m \<le> 2 ^ v - 1"
  shows "length (bits (fromMinterm m v)) = v
    \<and> (\<forall>i<v. bits (fromMinterm m v) ! i = (if bit m (v - 1 - i) then LTrue else LFalse))
    \<and> bitsValue (bits (fromMinterm m v)) = m"
proof -
  have len: "length (bits (fromMinterm m v)) = v"
    by (simp add: fromMinterm_def Table1Record_new_def)
  have nth: "bits (fromMinterm m v) ! i = (if bit m (v - 1 - i) then LTrue else LFalse)"
    if "i < v" for i
    using that assms(1) by (simp add: fromMinterm_def Table1Record_new_def rev_nth jsBit_eq)
  have "take_bit v m = m" using assms by (simp add: take_bit_int_eq_self)
  then have "bitsValue (bits (fromMinterm m v)) = m"
    using foldl_bits[OF assms(1), of 0 m]
    by (simp add: bitsValue_def fromMinterm_def Table1Record_new_def)
  with len nth show ?thesis by blast
qed

theorem fromMinterm_roundtrip_witness:
  "(3::nat) \<le> 32 \<and> (0::int) \<le> 5 \<and> (5::int) \<le> 2 ^ 3 - 1
   \<and> length (bits (fromMinterm 5 3)) = 3
   \<and> bits (fromMinterm 5 3) ! 0 = (if bit (5::int) (3 - 1 - 0) then LTrue else LFalse)
   \<and> bitsValue (bits (fromMinterm 5 3)) = 5"
proof -
  have h1: "(3::nat) \<le> 32" and h2: "(0::int) \<le> 5" and h3: "(5::int) \<le> 2 ^ 3 - 1" by simp_all
  from fromMinterm_roundtrip[OF h1 h2 h3] have
    "length (bits (fromMinterm 5 3)) = 3
     \<and> bits (fromMinterm 5 3) ! 0 = (if bit (5::int) (3 - 1 - 0) then LTrue else LFalse)
     \<and> bitsValue (bits (fromMinterm 5 3)) = 5" by simp
  with h1 h2 h3 show ?thesis by blast
qed

section \<open>Rendering of a loop\<close>

text \<open>
  Claim C10, as stated: for every list of variable names that covers all positions,
  \<open>toString\<close> returns the constant 1 when the pattern is empty or all DontCare, and
  otherwise the concatenation of the names (with an apostrophe for \<open>LFalse\<close>, bare for
  \<open>LTrue\<close>, nothing for DontCare). This fails when a name is the empty string:
  \<^verbatim>\<open>inputVariables[i] || `x${i}`\<close> replaces it by the placeholder, so the one-position
  pattern \<open>[LTrue]\<close> with one empty name renders as \<^verbatim>\<open>x0\<close>, not as the bare (empty) name.
\<close>

theorem toString_counterexample:
  "length (loop_bits (RequiredLoop_new [1] [LTrue])) \<le> length [[] :: string]
   \<and> toString (RequiredLoop_new [1] [LTrue]) [[]] = ''x0''
   \<and> renderSpec (loop_bits (RequiredLoop_new [1] [LTrue])) [[]] = []"
  by code_simp

text \<open>
  Claim C10, amended: for every loop and every list of non-empty variable names that
  covers all positions, \<open>toString\<close> returns the constant 1 when the pattern is empty or
  every position is DontCare, and otherwise the separator-free concatenation, in position
  order, of the name followed by an apostrophe for each \<open>LFalse\<close> position and the bare
  name for each \<open>LTrue\<close> position, DontCare positions omitted.
\<close>

theorem toString_spec:
  assumes "length (loop_bits l) \<le> length names" "\<forall>i<length (loop_bits l). names ! i \<noteq> []"
  shows "toString l names =
     (if loop_bits l = [] \<or> (\<forall>b\<in>set (loop_bits l). b = DontCare) then ''1''
      else renderSpec (loop_bits l) names)"
  using literals_concat[of 0 "loop_bits l" names] assms
  by (auto simp: toString_def Let_def literals_empty list_all_iff)

theorem toString_spec_witness:
  "length (loop_bits (RequiredLoop_new [0, 2, 8, 10] [DontCare, LFalse, DontCare, LFalse]))
     \<le> length [''A'', ''B'', ''C'', ''D'']
   \<and> toString (RequiredLoop_new [0, 2, 8, 10] [DontCare, LFalse, DontCare, LFalse])
        [''A'', ''B'', ''C'', ''D''] = [CHR ''B'', CHR 0x27, CHR ''D'', CHR 0x27]
   \<and> toString (RequiredLoop_new [0, 1, 2, 3] [DontCare, DontCare]) [''A'', ''B''] = ''1''"
proof -
  let ?l = "RequiredLoop_new [0, 2, 8, 10] [DontCare, LFalse, DontCare, LFalse]"
  let ?k = "RequiredLoop_new [0, 1, 2, 3] [DontCare, DontCare]"
  have b: "loop_bits ?l = [DontCare, LFalse, DontCare, LFalse]" "loop_bits ?k = [DontCare, DontCare]"
    by (simp_all add: RequiredLoop_new_def)
  have h1: "length (loop_bits ?l) \<le> length [''A'', ''B'', ''C'', ''D'']" by (simp add: b)
  have h2: "\<forall>i<length (loop_bits ?l). [''A'', ''B'', ''C'', ''D''] ! i \<noteq> []"
    by (simp add: b less_Suc_eq numeral_eq_Suc)
  have k1: "length (loop_bits ?k) \<le> length [''A'', ''B'']" by (simp add: b)
  have k2: "\<forall>i<length (loop_bits ?k). [''A'', ''B''] ! i \<noteq> []"
    by (simp add: b less_Suc_eq numeral_eq_Suc)
  have "toString ?l [''A'', ''B'', ''C'', ''D''] = [CHR ''B'', CHR 0x27, CHR ''D'', CHR 0x27]"
    using toString_spec[OF h1 h2] by (simp add: b renderSpec_def literalOf_def)
  moreover have "toString ?k [''A'', ''B''] = ''1''"
    using toString_spec[OF k1 k2] by (simp add: b)
  ultimately show ?thesis using h1 by blast
qed

section \<open>Coverage of the requested minterms\<close>

text \<open>
  In the two claims of this section a term is in range when it lies in
  \<open>[0, 2 ^ variableCount - 1]\<close>. The validation of \<open>solve\<close> compares with
  \<^verbatim>\<open>(1 << variableCount) - 1\<close>, which is \<open>2 ^ variableCount - 1\<close> up to 30 variables
  (lemma \<open>maxPossibleTerm_small\<close>) and a negative number for 31 variables.
\<close>

text \<open>
  Claim C1, as stated: for non-empty minterms and terms in range, the union of the
  minterms of the returned loops equals the requested minterm set, with no extra index
  even when there are don't-cares. This fails on \<open>solve [1] [0] 1\<close>: both terms are in
  range, the only prime implicant merges minterm 1 with the don't-care 0, the essential
  pass selects it (the table is fully covered, the residual heuristic never runs), and the
  returned loop has the minterms \<open>[0, 1]\<close>, although 0 was not requested. It also fails
  for 31 variables: \<^verbatim>\<open>(1 << 31) - 1\<close> is negative, and \<open>solve [0] [] 31\<close> refuses the term
  0 of \<open>[0, 2 ^ 31 - 1]\<close> instead of returning loops.
\<close>

theorem solve_union_counterexample:
  "(0::int) \<le> 1 \<and> (1::int) \<le> 2 ^ 1 - 1
   \<and> solve [1] [0] 1 = Inr [\<lparr>loop_minterms = [0, 1], loop_bits = [DontCare]\<rparr>]
   \<and> (0::int) \<in> set (loop_minterms \<lparr>loop_minterms = [0, 1], loop_bits = [DontCare]\<rparr>)
   \<and> (0::int) \<notin> set [1]
   \<and> isFullyCovered (snd (findEssentialPrimeImplicants
         (Table2_new (findPrimeImplicants [1] [0] 1) [1])))
   \<and> (0::int) \<le> 2 ^ 31 - 1
   \<and> solve [0] [] 31 = Inl (TermExceedsMaximum 0 (- 2147483649) 31)"
  by code_simp

text \<open>
  Claim C1, amended: for every call \<open>solve minterms dontcares variableCount\<close> with at most
  30 variables, non-empty minterms and all terms within \<open>[0, 2 ^ variableCount - 1]\<close>,
  \<open>solve\<close> returns loops, every requested minterm is in the union of the minterms of the
  returned loops, and every index of that union is a requested minterm or a don't-care
  (so the union is the requested set when there are no don't-cares).
\<close>

theorem solve_union:
  assumes "v \<le> 30" "ms \<noteq> []" "\<forall>t\<in>set (ms @ dcs). 0 \<le> t \<and> t \<le> 2 ^ v - 1"
  shows "\<exists>loops. solve ms dcs v = Inr loops
     \<and> set ms \<subseteq> (\<Union>l\<in>set loops. set (loop_minterms l))
     \<and> (\<Union>l\<in>set loops. set (loop_minterms l)) \<subseteq> set ms \<union> set dcs"
proof -
  from assms(3) have "\<forall>t\<in>set (ms @ dcs). t \<le> maxPossibleTerm v"
    unfolding maxPossibleTerm_small[OF assms(1)] by blast
  from solve_covers[OF assms(2) this] obtain loops where
    l: "solve ms dcs v = Inr loops" "\<forall>m\<in>set ms. \<exists>l\<in>set loops. m \<in> set (loop_minterms l)"
      "\<forall>l\<in>set loops. set (loop_minterms l) \<subseteq> set ms \<union> set dcs" by blast
  from l(2) have "set ms \<subseteq> (\<Union>l\<in>set loops. set (loop_minterms l))" by blast
  moreover from l(3) have "(\<Union>l\<in>set loops. set (loop_minterms l)) \<subseteq> set ms \<union> set dcs" by blast
  ultimately show ?thesis using l(1) by blast
qed

theorem solve_union_witness:
  "solve [1, 2] [0, 3] 3 = Inr [\<lparr>loop_minterms = [0, 1, 2, 3], loop_bits = [LFalse, DontCare, DontCare]\<rparr>]
   \<and> set [1, 2] \<subseteq> (\<Union>l\<in>set [\<lparr>loop_minterms = [0, 1, 2, 3], loop_bits = [LFalse, DontCare, DontCare]\<rparr>].
         set (loop_minterms l))
   \<and> (\<Union>l\<in>set [\<lparr>loop_minterms = [0, 1, 2, 3], loop_bits = [LFalse, DontCare, DontCare]\<rparr>].
         set (loop_minterms l)) \<subseteq> set [1, 2] \<union> set [0, 3]"
proof -
  have h1: "(3::nat) \<le> 30" by simp
  have h2: "[1, 2] \<noteq> ([] :: int list)" by simp
  have h3: "\<forall>t\<in>set ([1, 2] @ [0, 3]). (0::int) \<le> t \<and> t \<le> 2 ^ 3 - 1" by simp
  have e: "solve [1, 2] [0, 3] 3 =
      Inr [\<lparr>loop_minterms = [0, 1, 2, 3], loop_bits = [LFalse, DontCare, DontCare]\<rparr>]"
    by code_simp
  from solve_union[OF h1 h2 h3] show ?thesis unfolding e by simp
qed




section \<open>Validation of the terms\<close>

text \<open>
  Claim C2 says that \<open>solve\<close> fails exactly when the minterms are non-empty and some term
  lies outside \<open>[0, 2 ^ variableCount - 1]\<close>, and that a negative term is rejected. The
  validation loop only tests \<^verbatim>\<open>term > maxPossibleTerm\<close> (lemma \<open>solve_rejects_iff\<close>: up to
  30 variables \<open>solve\<close> fails exactly when the minterms are non-empty and some term
  exceeds \<open>2 ^ variableCount - 1\<close>, with the first such term and that maximum in the
  error). The lower bound is never tested: the call \<open>solve [- 1] [] 2\<close> does not fail and
  returns a loop for the term \<open>- 1\<close>, with the pattern of minterm 3.
\<close>

theorem solve_negative_term:
  "solve [- 1] [] 2 = Inr [\<lparr>loop_minterms = [- 1], loop_bits = [LTrue, LTrue]\<rparr>]"
  by code_simp

section \<open>Order of the returned loops\<close>

text \<open>
  Claim C3, as stated: the returned list is in selection order, the essential implicants
  first, in the order their columns were found. This fails on \<open>solve [0, 1, 7] [] 3\<close>:
  the prime implicants are the records of \<open>[7]\<close> (row 0) and \<open>[0, 1]\<close> (row 1); the
  essential pass finds row 1 first (column of minterm 0) and row 0 second (column of
  minterm 7), and covers the table; \<^verbatim>\<open>getSelectedRows\<close> filters the rows in table order, so
  the loop of \<open>[7]\<close> is returned before the loop of \<open>[0, 1]\<close>.
\<close>

theorem solve_order_counterexample:
  "solve [0, 1, 7] [] 3 =
     Inr [\<lparr>loop_minterms = [7], loop_bits = [LTrue, LTrue, LTrue]\<rparr>,
          \<lparr>loop_minterms = [0, 1], loop_bits = [LFalse, LFalse, DontCare]\<rparr>]
   \<and> map minterms (findPrimeImplicants [0, 1, 7] [] 3) = [[7], [0, 1]]
   \<and> fst (findEssentialPrimeImplicants (Table2_new (findPrimeImplicants [0, 1, 7] [] 3) [0, 1, 7]))
       = [1, 0]
   \<and> isFullyCovered (snd (findEssentialPrimeImplicants
         (Table2_new (findPrimeImplicants [0, 1, 7] [] 3) [0, 1, 7])))"
  by code_simp

text \<open>
  Claim C3, amended: the list returned by \<open>solve\<close> is in the order of the coverage table's
  rows, that is, of the prime implicants as \<open>findPrimeImplicants\<close> returns them: the
  returned loops are the loops of a subsequence of the prime-implicant list, whatever the
  order in which their rows were selected.
\<close>

theorem solve_order:
  assumes "solve ms dcs v = Inr loops"
  shows "subseq loops
     (map (\<lambda>r. RequiredLoop_new (minterms r) (bits r)) (findPrimeImplicants ms dcs v))"
  using assms by (rule solve_subseq)

theorem solve_order_witness:
  "solve [0, 1, 7] [] 3 =
     Inr [\<lparr>loop_minterms = [7], loop_bits = [LTrue, LTrue, LTrue]\<rparr>,
          \<lparr>loop_minterms = [0, 1], loop_bits = [LFalse, LFalse, DontCare]\<rparr>]
   \<and> subseq [\<lparr>loop_minterms = [7], loop_bits = [LTrue, LTrue, LTrue]\<rparr>,
          \<lparr>loop_minterms = [0, 1], loop_bits = [LFalse, LFalse, DontCare]\<rparr>]
        (map (\<lambda>r. RequiredLoop_new (minterms r) (bits r)) (findPrimeImplicants [0, 1, 7] [] 3))"
proof -
  have e: "solve [0, 1, 7] [] 3 =
     Inr [\<lparr>loop_minterms = [7], loop_bits = [LTrue, LTrue, LTrue]\<rparr>,
          \<lparr>loop_minterms = [0, 1], loop_bits = [LFalse, LFalse, DontCare]\<rparr>]"
    by code_simp
  from solve_order[OF e] e show ?thesis by blast
qed

section \<open>Essential-implicant selection\<close>

text \<open>
  Claim C6. For duplicate-free requested minterms \<open>ms\<close> and the table built from any
  prime implicants \<open>pis\<close>, with \<open>essentialPass t k\<close> the state of the pass after the steps
  for the first \<open>k\<close> columns:
  (1) at every moment of the pass the flag of a column is set exactly when some selected
  row covers its minterm, so that an uncovered column is one that no selected row covers;
  (2) whenever the step for column \<open>k\<close> selects a row \<open>i\<close> (selected after the step, not
  before), column \<open>k\<close> was uncovered before the step, by its flag and by the selected rows,
  and \<open>i\<close> was the only unselected row covering its minterm;
  (3) when the pass returns, no column left uncovered by the selected rows has exactly
  one unselected covering row;
  (4) the rows selected when the pass returns are exactly the rows that are the only row
  of the table covering some requested minterm (the essential prime implicants of the
  glossary);
  (5) the table the pass returns is the table that the repeat-until loop of the
  specification, \<open>specEssential\<close>, returns;
  (6) running the pass again on that table selects nothing and changes nothing.
\<close>

theorem essential_selection:
  assumes "distinct ms"
  shows "(\<forall>k\<le>length ms. \<forall>j<length ms.
            isCovered (columns (snd (essentialPass (Table2_new pis ms) k)) ! j)
              = selectedCovers (snd (essentialPass (Table2_new pis ms) k))
                  (minterm (columns (snd (essentialPass (Table2_new pis ms) k)) ! j)))
     \<and> (\<forall>k<length ms. \<forall>i<length pis.
            isSelected (rows (snd (essentialPass (Table2_new pis ms) (Suc k))) ! i)
            \<and> \<not> isSelected (rows (snd (essentialPass (Table2_new pis ms) k)) ! i)
          \<longrightarrow> \<not> isCovered (columns (snd (essentialPass (Table2_new pis ms) k)) ! k)
              \<and> \<not> selectedCovers (snd (essentialPass (Table2_new pis ms) k))
                   (minterm (columns (snd (essentialPass (Table2_new pis ms) k)) ! k))
              \<and> coveringRows (snd (essentialPass (Table2_new pis ms) k))
                   (minterm (columns (snd (essentialPass (Table2_new pis ms) k)) ! k)) = [i])
     \<and> (\<forall>j<length ms.
            \<not> selectedCovers (snd (findEssentialPrimeImplicants (Table2_new pis ms)))
                (minterm (columns (snd (findEssentialPrimeImplicants (Table2_new pis ms))) ! j))
          \<longrightarrow> length (coveringRows (snd (findEssentialPrimeImplicants (Table2_new pis ms)))
                 (minterm (columns (snd (findEssentialPrimeImplicants (Table2_new pis ms))) ! j))) \<noteq> 1)
     \<and> (\<forall>i<length pis.
            isSelected (rows (snd (findEssentialPrimeImplicants (Table2_new pis ms))) ! i)
              = (\<exists>m\<in>set ms. allCoveringRows (Table2_new pis ms) m = [i]))
     \<and> snd (findEssentialPrimeImplicants (Table2_new pis ms)) = specEssential (Table2_new pis ms)
     \<and> findEssentialPrimeImplicants (snd (findEssentialPrimeImplicants (Table2_new pis ms)))
         = ([], snd (findEssentialPrimeImplicants (Table2_new pis ms)))"
proof -
  let ?t0 = "Table2_new pis ms"
  let ?T = "\<lambda>k. snd (essentialPass ?t0 k)"
  let ?tf = "snd (findEssentialPrimeImplicants ?t0)"
  have len0: "length (rows ?t0) = length pis" "length (columns ?t0) = length ms"
    by (simp_all add: Table2_new_def)
  have d0: "distinct (map minterm (columns ?t0))" using assms by (simp add: Table2_new_columns)
  have tf: "?tf = ?T (length ms)" by (simp add: findEssentialPrimeImplicants_def len0)
  have inv: "essInv ms k (?T k)" if "k \<le> length ms" for k
    unfolding essentialPass_spec[OF d0] using Table2_new_essInv that by (rule specPass_essInv)
  have mt: "minterm (columns (?T k) ! j) = ms ! j" if "k \<le> length ms" "j < length ms" for k j
  proof -
    from inv[OF that(1)] have mm: "map minterm (columns (?T k)) = ms" by (simp add: essInv_def)
    then have "length (columns (?T k)) = length ms" by (metis length_map)
    with mm that(2) show ?thesis by (metis nth_map)
  qed
  have flag: "isCovered (columns (?T k) ! j) = selectedCovers (?T k) (minterm (columns (?T k) ! j))"
    if "k \<le> length ms" "j < length ms" for k j
    using inv[OF that(1)] that(2) unfolding mt[OF that] by (simp add: essInv_def)
  have 1: "\<not> isCovered (columns (?T k) ! k)
              \<and> \<not> selectedCovers (?T k) (minterm (columns (?T k) ! k))
              \<and> coveringRows (?T k) (minterm (columns (?T k) ! k)) = [i]"
    if "k < length ms" "i < length pis"
      "isSelected (rows (?T (Suc k)) ! i)"
      "\<not> isSelected (rows (?T k) ! i)" for k i
  proof -
    obtain e t1 where p: "essentialPass ?t0 k = (e, t1)" by (metis surj_pair)
    have "sameRows ?t0 t1" using essentialPass_sameRows[of ?t0 k] p by simp
    then have i: "i < length (rows t1)" using that(2) len0 by (simp add: sameRows_def)
    from that(3,4) have "isSelected (rows (snd (essentialStep (e, t1) k)) ! i)"
      "\<not> isSelected (rows t1 ! i)"
      by (simp_all add: essentialPass_Suc p)
    from essentialStep_selects[OF i this]
    have a: "\<not> isCovered (columns (?T k) ! k)"
      "coveringRows (?T k) (minterm (columns (?T k) ! k)) = [i]" by (simp_all add: p)
    from that(1) have "k \<le> length ms" by simp
    from flag[OF this that(1)] a(1)
    have "\<not> selectedCovers (?T k) (minterm (columns (?T k) ! k))" by simp
    with a show ?thesis by blast
  qed
  have pinv: "passInv ms (length ms) ?tf"
    using essentialPass_passInv[OF assms Table2_new_columns, of "length ms" pis]
    by (simp add: findEssentialPrimeImplicants_def len0)
  have 2: "length (coveringRows ?tf (minterm (columns ?tf ! j))) \<noteq> 1"
    if "j < length ms" "\<not> isCovered (columns ?tf ! j)" for j
    using pinv that mt[OF order_refl that(1)] unfolding tf by (simp add: passInv_def)
  have unq: "length (coveringRows ?tf (minterm (columns ?tf ! j))) \<noteq> 1"
    if "j < length ms" "\<not> selectedCovers ?tf (minterm (columns ?tf ! j))" for j
  proof -
    from that(2) flag[OF order_refl that(1)] have "\<not> isCovered (columns ?tf ! j)"
      unfolding tf by simp
    with that(1) show ?thesis by (rule 2)
  qed
  have lenf: "length (columns ?tf) = length ms"
    using pinv by (metis passInv_def length_map)
  have 3: "findEssentialPrimeImplicants ?tf = ([], ?tf)"
    unfolding findEssentialPrimeImplicants_def[of ?tf]
    by (rule essentialPass_again) (use 2 lenf in auto)
  have same: "sameRows ?t0 ?tf"
    unfolding findEssentialPrimeImplicants_def by (rule essentialPass_sameRows)
  have rlen: "length (rows ?tf) = length pis" using same len0 by (simp add: sameRows_def)
  have all: "allCoveringRows ?tf m = allCoveringRows ?t0 m" for m
    using same by (rule allCoveringRows_sameRows)
  have finv: "essInv ms (length ms) ?tf" unfolding tf by (rule inv) simp
  have 4: "isSelected (rows ?tf ! i) = (\<exists>m\<in>set ms. allCoveringRows ?t0 m = [i])"
    if "i < length pis" for i
  proof
    assume "isSelected (rows ?tf ! i)"
    with finv that rlen have "\<exists>m\<in>set ms. allCoveringRows ?tf m = [i]"
      unfolding essInv_def by simp
    then show "\<exists>m\<in>set ms. allCoveringRows ?t0 m = [i]" unfolding all .
  next
    assume "\<exists>m\<in>set ms. allCoveringRows ?t0 m = [i]"
    then obtain m where m: "m \<in> set ms" "allCoveringRows ?tf m = [i]" unfolding all by blast
    from m(1) obtain j where j: "j < length ms" "ms ! j = m" by (auto simp: in_set_conv_nth)
    from finv have "\<forall>j<length ms. \<forall>i. allCoveringRows ?tf (ms ! j) = [i] \<longrightarrow> isSelected (rows ?tf ! i)"
      unfolding essInv_def by blast
    with j m(2) show "isSelected (rows ?tf ! i)" by blast
  qed
  have 5: "?tf = specEssential ?t0" using specEssential_pass[OF assms, of pis] by simp
  from flag 1 unq 3 4 5 show ?thesis by blast
qed

theorem essential_selection_witness:
  "distinct [0, 1, 7 :: int]
   \<and> isSelected (rows (snd (essentialPass
         (Table2_new (findPrimeImplicants [0, 1, 7] [] 3) [0, 1, 7]) (Suc 0))) ! 1)
   \<and> \<not> isSelected (rows (snd (essentialPass
         (Table2_new (findPrimeImplicants [0, 1, 7] [] 3) [0, 1, 7]) 0)) ! 1)
   \<and> \<not> selectedCovers (snd (essentialPass
         (Table2_new (findPrimeImplicants [0, 1, 7] [] 3) [0, 1, 7]) 0))
        (minterm (columns (snd (essentialPass
           (Table2_new (findPrimeImplicants [0, 1, 7] [] 3) [0, 1, 7]) 0)) ! 0))
   \<and> coveringRows (snd (essentialPass (Table2_new (findPrimeImplicants [0, 1, 7] [] 3) [0, 1, 7]) 0))
        (minterm (columns (snd (essentialPass
           (Table2_new (findPrimeImplicants [0, 1, 7] [] 3) [0, 1, 7]) 0)) ! 0)) = [1]
   \<and> snd (findEssentialPrimeImplicants (Table2_new (findPrimeImplicants [0, 1, 7] [] 3) [0, 1, 7]))
       = specEssential (Table2_new (findPrimeImplicants [0, 1, 7] [] 3) [0, 1, 7])
   \<and> map isSelected (rows (specEssential
         (Table2_new (findPrimeImplicants [0, 1, 7] [] 3) [0, 1, 7]))) = [True, True]
   \<and> findEssentialPrimeImplicants (snd (findEssentialPrimeImplicants
         (Table2_new (findPrimeImplicants [0, 1, 7] [] 3) [0, 1, 7])))
       = ([], snd (findEssentialPrimeImplicants
         (Table2_new (findPrimeImplicants [0, 1, 7] [] 3) [0, 1, 7])))"
proof -
  let ?pis = "findPrimeImplicants [0, 1, 7] [] 3"
  let ?t0 = "Table2_new ?pis [0, 1, 7]"
  have h: "distinct [0, 1, 7 :: int]" by simp
  have k: "0 < length [0, 1, 7 :: int]" by simp
  have i: "1 < length ?pis" by code_simp
  have a: "isSelected (rows (snd (essentialPass ?t0 (Suc 0))) ! 1)" by code_simp
  have b: "\<not> isSelected (rows (snd (essentialPass ?t0 0)) ! 1)" by code_simp
  have s: "map isSelected (rows (specEssential ?t0)) = [True, True]" by code_simp
  note sel = essential_selection[OF h, of ?pis]
  from sel have
    "\<forall>k<length [0, 1, 7 :: int]. \<forall>i<length ?pis.
        isSelected (rows (snd (essentialPass ?t0 (Suc k))) ! i)
        \<and> \<not> isSelected (rows (snd (essentialPass ?t0 k)) ! i)
      \<longrightarrow> \<not> isCovered (columns (snd (essentialPass ?t0 k)) ! k)
          \<and> \<not> selectedCovers (snd (essentialPass ?t0 k))
               (minterm (columns (snd (essentialPass ?t0 k)) ! k))
          \<and> coveringRows (snd (essentialPass ?t0 k))
               (minterm (columns (snd (essentialPass ?t0 k)) ! k)) = [i]"
    by blast
  with k i a b have c: "\<not> selectedCovers (snd (essentialPass ?t0 0))
               (minterm (columns (snd (essentialPass ?t0 0)) ! 0))
      \<and> coveringRows (snd (essentialPass ?t0 0))
           (minterm (columns (snd (essentialPass ?t0 0)) ! 0)) = [1]"
    by blast
  from sel have d: "snd (findEssentialPrimeImplicants ?t0) = specEssential ?t0"
    and e: "findEssentialPrimeImplicants (snd (findEssentialPrimeImplicants ?t0))
       = ([], snd (findEssentialPrimeImplicants ?t0))"
    by blast+
  from h a b c d s e show ?thesis by blast
qed

end
